theory Spec2Isabelle
  imports Main "HOL-Library.Word"
begin

unbundle bit_operations_syntax

section \<open>Bytes, errors and the checksum\<close>

text \<open>
  A Python \<^verbatim>\<open>bytes\<close> value is a list of 8-bit words. Python integers are unbounded and are
  modelled by \<^typ>\<open>int\<close>; stream positions and file offsets only ever grow by the length of
  a byte string and are modelled by \<^typ>\<open>nat\<close>.
\<close>

type_synonym byte = "8 word"
type_synonym bytes = "byte list"

text \<open>
  The exceptions the program can raise. \<^verbatim>\<open>InvalidFormatError\<close> and \<^verbatim>\<open>ChecksumFailure\<close> are
  the two subclasses of \<^verbatim>\<open>BPSError\<close> and carry their message. \<^verbatim>\<open>IndexError\<close> is what
  Python raises for \<^verbatim>\<open>b''[0]\<close>, and \<^verbatim>\<open>OSError\<close> what a file object raises for a seek
  before the start of the file; neither is a \<^verbatim>\<open>BPSError\<close>.
\<close>

datatype error =
    InvalidFormatError string
  | ChecksumFailure string
  | IndexError
  | OSError

definition MAGIC :: bytes where
  "MAGIC = [0x42, 0x50, 0x53, 0x31]"

definition BUFFER_SIZE :: int where
  "BUFFER_SIZE = 8192"

definition EMPTY_DATA :: bytes where
  "EMPTY_DATA = replicate 8192 0"

text \<open>
  Modelled from the spec: \<^verbatim>\<open>zlib.crc32\<close>, a library function that is not part of the
  program. \<^verbatim>\<open>zlib.crc32(data, value)\<close> is the standard CRC-32 (reflected polynomial
  \<^verbatim>\<open>0xEDB88320\<close>, initial value and final complement \<^verbatim>\<open>0xFFFFFFFF\<close>), continued from the
  running value \<^verbatim>\<open>value\<close>; it is written out bit by bit.
\<close>

definition crc_bit :: "32 word \<Rightarrow> 32 word" where
  "crc_bit c = (if bit c 0 then drop_bit 1 c XOR 0xEDB88320 else drop_bit 1 c)"

definition crc_byte :: "32 word \<Rightarrow> byte \<Rightarrow> 32 word" where
  "crc_byte c b =
     crc_bit (crc_bit (crc_bit (crc_bit (crc_bit (crc_bit (crc_bit (crc_bit (c XOR ucast b))))))))"

definition crc32 :: "bytes \<Rightarrow> int \<Rightarrow> int" where
  "crc32 data v = uint (NOT (foldl crc_byte (NOT (word_of_int v)) data))"

text \<open>\<^verbatim>\<open>int.from_bytes(data, 'little', signed=False)\<close>.\<close>

fun from_bytes_little :: "bytes \<Rightarrow> int" where
  "from_bytes_little [] = 0"
| "from_bytes_little (b # bs) = uint b + 256 * from_bytes_little bs"

lemma mask32: "(0xffffffff :: int) = mask 32"
  by (simp add: mask_eq_exp_minus_1)

lemma uint_and_mask32: "uint (w :: 32 word) AND 0xffffffff = uint w"
  unfolding mask32
  by (simp flip: take_bit_eq_mask
      add: take_bit_int_eq_self_iff uint_lt2p [where 'a = 32, simplified])

lemma crc32_masked: "crc32 data v AND 0xffffffff = crc32 data v"
  by (simp add: crc32_def uint_and_mask32)

lemma crc32_append: "crc32 b (crc32 a v) = crc32 (a @ b) v"
  by (simp add: crc32_def)

lemma crc32_Nil: "crc32 [] 0 = 0"
  by (simp add: crc32_def)

subsection \<open>Text of the error messages\<close>

text \<open>The format specification \<^verbatim>\<open>{n:x}\<close>: lower-case hexadecimal without prefix.\<close>

definition hex_digit :: "nat \<Rightarrow> char" where
  "hex_digit d = ''0123456789abcdef'' ! (d mod 16)"

function hex_nat :: "nat \<Rightarrow> string" where
  "hex_nat n = (if n < 16 then [hex_digit n] else hex_nat (n div 16) @ [hex_digit (n mod 16)])"
  by pat_completeness auto
termination
  by (relation "measure id") auto

declare hex_nat.simps [simp del]

definition format_x :: "int \<Rightarrow> string" where
  "format_x i = (if i < 0 then ''-'' @ hex_nat (nat (- i)) else hex_nat (nat i))"

text \<open>\<^verbatim>\<open>str(n)\<close> of an integer: decimal.\<close>

function dec_nat :: "nat \<Rightarrow> string" where
  "dec_nat n = (if n < 10 then [hex_digit n] else dec_nat (n div 10) @ [hex_digit (n mod 10)])"
  by pat_completeness auto
termination
  by (relation "measure id") auto

declare dec_nat.simps [simp del]

definition str_int :: "int \<Rightarrow> string" where
  "str_int i = (if i < 0 then ''-'' @ dec_nat (nat (- i)) else dec_nat (nat i))"

text \<open>
  \<^verbatim>\<open>repr\<close> of a bytes value: the quote is \<^verbatim>\<open>'\<close> unless the value holds a \<^verbatim>\<open>'\<close> and no
  \<^verbatim>\<open>"\<close>; the quote and the backslash are escaped, tab, newline and carriage return have
  their letters, every other byte outside the printable ASCII range is \<^verbatim>\<open>\xNN\<close>.
\<close>

definition repr_quote :: "bytes \<Rightarrow> byte" where
  "repr_quote data = (if 0x27 \<in> set data \<and> 0x22 \<notin> set data then 0x22 else 0x27)"

definition repr_byte :: "byte \<Rightarrow> byte \<Rightarrow> string" where
  "repr_byte q b =
     (if b = q \<or> b = 0x5c then [CHR 0x5c, char_of (unat b)]
      else if b = 0x09 then [CHR 0x5c, CHR ''t'']
      else if b = 0x0a then [CHR 0x5c, CHR ''n'']
      else if b = 0x0d then [CHR 0x5c, CHR ''r'']
      else if b < 0x20 \<or> 0x7f \<le> b then
        [CHR 0x5c, CHR ''x'', hex_digit (unat b div 16), hex_digit (unat b mod 16)]
      else [char_of (unat b)])"

definition repr_bytes :: "bytes \<Rightarrow> string" where
  "repr_bytes data =
     (let q = repr_quote data in ''b'' @ [char_of (unat q)] @ concat (map (repr_byte q) data) @ [char_of (unat q)])"

section \<open>The checksum cursor\<close>

text \<open>
  A \<^verbatim>\<open>_ReadState\<close> wraps a file object. The file object is the pair of the contents of the
  file behind it (\<open>buffer\<close>) and its own offset into them (\<open>offset\<close>); \<open>position\<close> and
  \<open>checksum\<close> are the two counters of the class.
\<close>

record ReadState =
  buffer :: bytes
  offset :: nat
  position :: nat
  checksum :: int

text \<open>
  \<^verbatim>\<open>f.read(n)\<close> on a binary file: at most \<open>n\<close> bytes from the offset on, fewer only at the
  end of the file, everything to the end for a negative \<open>n\<close>.
\<close>

definition file_read :: "bytes \<Rightarrow> nat \<Rightarrow> int \<Rightarrow> bytes" where
  "file_read content off n =
     (if n < 0 then drop off content else take (nat n) (drop off content))"

definition new_ReadState :: "bytes \<Rightarrow> nat \<Rightarrow> ReadState" where
  "new_ReadState content off = \<lparr>buffer = content, offset = off, position = 0, checksum = 0\<rparr>"

definition ReadState_read :: "ReadState \<Rightarrow> int \<Rightarrow> bytes \<times> ReadState" where
  "ReadState_read r n =
     (let data = file_read (buffer r) (offset r) n in
      (data, r\<lparr>offset := offset r + length data,
                position := position r + length data,
                checksum := crc32 data (checksum r) AND 0xffffffff\<rparr>))"

text \<open>
  The write side is only ever the target, opened with mode \<^verbatim>\<open>'wb'\<close> and unbuffered: the
  file starts empty and every write appends to it at once.
\<close>

definition ReadState_write :: "ReadState \<Rightarrow> bytes \<Rightarrow> ReadState" where
  "ReadState_write r data =
     r\<lparr>buffer := buffer r @ data,
       offset := offset r + length data,
       position := position r + length data,
       checksum := crc32 data (checksum r) AND 0xffffffff\<rparr>"

section \<open>The VarInt codec\<close>

lemma ReadState_read_remaining:
  "ReadState_read r 1 = (bs, r') \<Longrightarrow> bs \<noteq> [] \<Longrightarrow>
   length (buffer r') - offset r' < length (buffer r) - offset r"
  by (auto simp: ReadState_read_def file_read_def Let_def)

text \<open>
  The loop of \<^verbatim>\<open>_decode_number\<close>, with its two variables \<open>data\<close> and \<open>shift\<close>.
  \<^verbatim>\<open>input.read(1)[0]\<close> raises \<^verbatim>\<open>IndexError\<close> when the read returns no byte.
\<close>

function decode_loop :: "int \<Rightarrow> int \<Rightarrow> ReadState \<Rightarrow> error + (int \<times> ReadState)" where
  "decode_loop data shift input =
     (let (bs, input') = ReadState_read input 1 in
      if bs = [] then Inl IndexError
      else
        let x = uint (bs ! 0);
            data = data + (x AND 0x7f) * shift
        in if x AND 0x80 \<noteq> 0 then Inr (data, input')
           else
             let shift = push_bit 7 shift;
                 data = data + shift
             in decode_loop data shift input')"
  by pat_completeness auto
termination
  by (relation "measure (\<lambda>(data, shift, input). length (buffer input) - offset input)")
     (auto dest: ReadState_read_remaining [OF sym])

declare decode_loop.simps [simp del]

definition decode_number :: "ReadState \<Rightarrow> error + (int \<times> ReadState)" where
  "decode_number input = decode_loop 0 1 input"

lemma decode_loop_advances:
  "decode_loop d sh r = Inr (v, r') \<Longrightarrow>
   buffer r' = buffer r \<and> offset r < offset r' \<and> offset r' \<le> length (buffer r)"
proof (induction d sh r rule: decode_loop.induct)
  case (1 data shift input)
  obtain bs input' where rd: "ReadState_read input 1 = (bs, input')"
    by (cases "ReadState_read input 1")
  from rd have bs: "bs = take 1 (drop (offset input) (buffer input))"
    and i': "buffer input' = buffer input" "offset input' = offset input + length bs"
    by (auto simp: ReadState_read_def file_read_def Let_def)
  show ?case
  proof (cases "bs = []")
    case True
    with "1.prems" rd show ?thesis
      by (subst (asm) decode_loop.simps) simp
  next
    case False
    then have step: "offset input < offset input'" "offset input' \<le> length (buffer input)"
      using bs i' by (auto simp: not_less Suc_le_eq)
    show ?thesis
    proof (cases "uint (bs ! 0) AND 0x80 \<noteq> 0")
      case True
      with "1.prems" rd False have "r' = input'"
        by (subst (asm) decode_loop.simps) (simp add: Let_def)
      with step i' show ?thesis by simp
    next
      case stop: False
      with "1.prems" rd False have rec:
        "decode_loop (data + (uint (bs ! 0) AND 0x7f) * shift + push_bit 7 shift)
           (push_bit 7 shift) input' = Inr (v, r')"
        by (subst (asm) decode_loop.simps) (simp add: Let_def)
      from "1.IH" [OF refl rd [symmetric] False refl refl stop refl refl rec]
      have "buffer r' = buffer input' \<and> offset input' < offset r'
          \<and> offset r' \<le> length (buffer input')"
        by simp
      with step i' show ?thesis by simp
    qed
  qed
qed

lemma decode_number_advances:
  "decode_number r = Inr (v, r') \<Longrightarrow>
   buffer r' = buffer r \<and> offset r < offset r' \<and> offset r' \<le> length (buffer r)"
  unfolding decode_number_def by (rule decode_loop_advances)

section \<open>The patch interpreter\<close>

text \<open>
  The three cursors of \<^verbatim>\<open>_PatchState\<close> and the two back-reference file objects of
  \<^verbatim>\<open>_patch\<close>. \<^verbatim>\<open>patch\<close> opens the source path twice and the target path twice, so
  \<open>source_rel\<close> is an offset into the file behind \<open>source\<close>, and \<open>target_rel\<close> an
  offset into the file that \<open>target\<close> is writing: a read through \<open>target_rel\<close> sees
  every byte written so far. (\<open>target_rel\<close> is a buffered reader; on a file that only
  grows its read-ahead holds bytes that never change, and it asks the file again when
  the read-ahead is used up, so its reads return the current contents.)
\<close>

record PatchState =
  source :: ReadState
  patch :: ReadState
  target :: ReadState
  source_rel :: nat
  target_rel :: nat

datatype readable = Source | Patch | SourceRel | TargetRel

fun stream_read :: "readable \<Rightarrow> int \<Rightarrow> PatchState \<Rightarrow> bytes \<times> PatchState" where
  "stream_read Source n s =
     (let (data, r) = ReadState_read (source s) n in (data, s\<lparr>source := r\<rparr>))"
| "stream_read Patch n s =
     (let (data, r) = ReadState_read (patch s) n in (data, s\<lparr>patch := r\<rparr>))"
| "stream_read SourceRel n s =
     (let data = file_read (buffer (source s)) (source_rel s) n
      in (data, s\<lparr>source_rel := source_rel s + length data\<rparr>))"
| "stream_read TargetRel n s =
     (let data = file_read (buffer (target s)) (target_rel s) n
      in (data, s\<lparr>target_rel := target_rel s + length data\<rparr>))"

text \<open>
  \<^verbatim>\<open>f.seek(delta, io.SEEK_CUR)\<close>: the operating system refuses an offset before the start
  of the file; an offset past the end is accepted.
\<close>

definition seek_cur :: "nat \<Rightarrow> int \<Rightarrow> error + nat" where
  "seek_cur off delta =
     (if int off + delta < 0 then Inl OSError else Inr (nat (int off + delta)))"

text \<open>
  \<^verbatim>\<open>_buffered_copy\<close>. Its loop subtracts \<open>buffer_size\<close> from \<open>length\<close> until that is
  no longer positive, which never happens for a \<open>buffer_size\<close> that is not positive:
  the result \<open>None\<close> stands for a call that does not return.
\<close>

partial_function (option) buffered_copy ::
  "readable \<Rightarrow> int \<Rightarrow> int \<Rightarrow> PatchState \<Rightarrow> PatchState option" where
  "buffered_copy src len buffer_size s =
     (if len > 0 then
        (let (buf, s1) = stream_read src (min len buffer_size) s;
             s2 = s1\<lparr>target := ReadState_write (target s1) buf\<rparr>
         in buffered_copy src (len - buffer_size) buffer_size s2)
      else Some s)"

text \<open>The byte-by-byte loop of TargetCopy: \<^verbatim>\<open>for _ in range(length)\<close>.\<close>

fun copy_bytewise :: "nat \<Rightarrow> PatchState \<Rightarrow> PatchState" where
  "copy_bytewise 0 s = s"
| "copy_bytewise (Suc n) s =
     (let (data, s1) = stream_read TargetRel 1 s
      in copy_bytewise n (s1\<lparr>target := ReadState_write (target s1) data\<rparr>))"

text \<open>\<^verbatim>\<open>(-1 if (data & 1) else 1) * (data >> 1)\<close>.\<close>

definition signed_offset :: "int \<Rightarrow> int" where
  "signed_offset data = (if data AND 1 \<noteq> 0 then - 1 else 1) * drop_bit 1 data"

definition invalid_command :: "int \<Rightarrow> error" where
  "invalid_command command =
     InvalidFormatError (''Invalid command '' @ str_int command @ '' (expected 0, 1, 2, or 3)'')"

text \<open>The branch \<^verbatim>\<open>command == 2\<close> of \<^verbatim>\<open>_patch\<close>.\<close>

definition source_copy :: "int \<Rightarrow> PatchState \<Rightarrow> (error + PatchState) option" where
  "source_copy len s =
     (case decode_number (patch s) of
        Inl e \<Rightarrow> Some (Inl e)
      | Inr (data, p) \<Rightarrow>
          (case seek_cur (source_rel s) (signed_offset data) of
             Inl e \<Rightarrow> Some (Inl e)
           | Inr off \<Rightarrow>
               map_option Inr
                 (buffered_copy SourceRel len BUFFER_SIZE (s\<lparr>patch := p, source_rel := off\<rparr>))))"

text \<open>The branch \<^verbatim>\<open>command == 3\<close> of \<^verbatim>\<open>_patch\<close>.\<close>

definition target_copy :: "nat \<Rightarrow> int \<Rightarrow> PatchState \<Rightarrow> (error + PatchState) option" where
  "target_copy target_rel_base len s =
     (case decode_number (patch s) of
        Inl e \<Rightarrow> Some (Inl e)
      | Inr (data, p) \<Rightarrow>
          (case seek_cur (target_rel s) (signed_offset data) of
             Inl e \<Rightarrow> Some (Inl e)
           | Inr off \<Rightarrow>
               (let s1 = s\<lparr>patch := p, target_rel := off\<rparr>;
                    target_rel_offset = int (target_rel s1) - int target_rel_base
                in if int (position (target s1)) - 8 > target_rel_offset
                   then map_option Inr
                          (buffered_copy TargetRel len
                             (min (int (position (target s1)) - target_rel_offset) BUFFER_SIZE) s1)
                   else Some (Inr (copy_bytewise (nat len) s1)))))"

text \<open>One turn of the instruction loop of \<^verbatim>\<open>_patch\<close>.\<close>

definition instruction :: "nat \<Rightarrow> PatchState \<Rightarrow> (error + PatchState) option" where
  "instruction target_rel_base s =
     (case decode_number (patch s) of
        Inl e \<Rightarrow> Some (Inl e)
      | Inr (data, p) \<Rightarrow>
          (let s1 = s\<lparr>patch := p\<rparr>;
               command = data AND 3;
               len = drop_bit 2 data + 1
           in if command = 0 then map_option Inr (buffered_copy Source len BUFFER_SIZE s1)
              else if command = 1 then map_option Inr (buffered_copy Patch len BUFFER_SIZE s1)
              else if command = 2 then source_copy len s1
              else if command = 3 then target_copy target_rel_base len s1
              else Some (Inl (invalid_command command))))"

subsection \<open>Reasoning about the copy loop\<close>

lemma buffered_copy_induct [consumes 1, case_names stop chunk]:
  assumes run: "buffered_copy src len bs s = Some s'"
    and stop: "\<And>len s. \<not> 0 < len \<Longrightarrow> P len s s"
    and chunk: "\<And>len s buf s1 s'. 0 < len \<Longrightarrow> stream_read src (min len bs) s = (buf, s1) \<Longrightarrow>
       buffered_copy src (len - bs) bs (s1\<lparr>target := ReadState_write (target s1) buf\<rparr>) = Some s' \<Longrightarrow>
       P (len - bs) (s1\<lparr>target := ReadState_write (target s1) buf\<rparr>) s' \<Longrightarrow> P len s s'"
  shows "P len s s'"
proof -
  have "buffered_copy src len bs s = Some s' \<and> (\<forall>P.
      (\<forall>len s. \<not> 0 < len \<longrightarrow> P len s s) \<longrightarrow>
      (\<forall>len s buf s1 s'. 0 < len \<longrightarrow> stream_read src (min len bs) s = (buf, s1) \<longrightarrow>
         buffered_copy src (len - bs) bs (s1\<lparr>target := ReadState_write (target s1) buf\<rparr>) = Some s' \<longrightarrow>
         P (len - bs) (s1\<lparr>target := ReadState_write (target s1) buf\<rparr>) s' \<longrightarrow> P len s s') \<longrightarrow>
      P len s s')"
  proof (rule buffered_copy.raw_induct [where P = "\<lambda>src len bs s s'.
      buffered_copy src len bs s = Some s' \<and> (\<forall>P.
      (\<forall>len s. \<not> 0 < len \<longrightarrow> P len s s) \<longrightarrow>
      (\<forall>len s buf s1 s'. 0 < len \<longrightarrow> stream_read src (min len bs) s = (buf, s1) \<longrightarrow>
         buffered_copy src (len - bs) bs (s1\<lparr>target := ReadState_write (target s1) buf\<rparr>) = Some s' \<longrightarrow>
         P (len - bs) (s1\<lparr>target := ReadState_write (target s1) buf\<rparr>) s' \<longrightarrow> P len s s') \<longrightarrow>
      P len s s')", OF _ run], goal_cases)
    case (1 f src len bs s s')
    show ?case
    proof (cases "0 < len")
      case False
      with 1(2) show ?thesis by (simp add: buffered_copy.simps)
    next
      case True
      obtain buf s1 where rd: "stream_read src (min len bs) s = (buf, s1)"
        by (cases "stream_read src (min len bs) s")
      from 1(2) True rd
      have "f src (len - bs) bs (s1\<lparr>target := ReadState_write (target s1) buf\<rparr>) = Some s'"
        by (simp add: Let_def)
      from 1(1) [OF this] have rec: "buffered_copy src (len - bs) bs (s1\<lparr>target := ReadState_write (target s1) buf\<rparr>) = Some s'"
        and ih: "\<And>P. (\<forall>len s. \<not> 0 < len \<longrightarrow> P len s s) \<Longrightarrow>
      (\<forall>len s buf s1 s'. 0 < len \<longrightarrow> stream_read src (min len bs) s = (buf, s1) \<longrightarrow>
         buffered_copy src (len - bs) bs (s1\<lparr>target := ReadState_write (target s1) buf\<rparr>) = Some s' \<longrightarrow>
         P (len - bs) (s1\<lparr>target := ReadState_write (target s1) buf\<rparr>) s' \<longrightarrow> P len s s') \<Longrightarrow>
         P (len - bs) (s1\<lparr>target := ReadState_write (target s1) buf\<rparr>) s'"
        by blast+
      from rec True rd have "buffered_copy src len bs s = Some s'"
        by (subst buffered_copy.simps) (simp add: Let_def)
      moreover have "\<And>P. (\<forall>len s. \<not> 0 < len \<longrightarrow> P len s s) \<Longrightarrow>
      (\<forall>len s buf s1 s'. 0 < len \<longrightarrow> stream_read src (min len bs) s = (buf, s1) \<longrightarrow>
         buffered_copy src (len - bs) bs (s1\<lparr>target := ReadState_write (target s1) buf\<rparr>) = Some s' \<longrightarrow>
         P (len - bs) (s1\<lparr>target := ReadState_write (target s1) buf\<rparr>) s' \<longrightarrow> P len s s') \<Longrightarrow> P len s s'"
        using ih rec True rd by blast
      ultimately show ?thesis by blast
    qed
  qed
  with stop chunk show ?thesis by blast
qed

lemma buffered_copy_total:
  assumes "0 < bs"
  shows "\<exists>s'. buffered_copy src len bs s = Some s'"
proof (induction "nat len" arbitrary: len s rule: less_induct)
  case less
  show ?case
  proof (cases "0 < len")
    case False
    then show ?thesis by (simp add: buffered_copy.simps)
  next
    case True
    obtain buf s1 where rd: "stream_read src (min len bs) s = (buf, s1)"
      by (cases "stream_read src (min len bs) s")
    from True assms have "nat (len - bs) < nat len" by simp
    from less [OF this] obtain s' where
      "buffered_copy src (len - bs) bs (s1\<lparr>target := ReadState_write (target s1) buf\<rparr>) = Some s'"
      by blast
    with True rd show ?thesis
      by (subst buffered_copy.simps) (simp add: Let_def)
  qed
qed

lemma stream_read_patch_frame:
  "stream_read src n s = (data, s') \<Longrightarrow>
   buffer (patch s') = buffer (patch s) \<and> offset (patch s) \<le> offset (patch s')"
  by (cases src) (auto simp: ReadState_read_def Let_def split: prod.splits)

lemma buffered_copy_patch_frame:
  assumes "buffered_copy src len bs s = Some s'"
  shows "buffer (patch s') = buffer (patch s) \<and> offset (patch s) \<le> offset (patch s')"
  using assms
proof (induction rule: buffered_copy_induct)
  case (stop len s)
  show ?case by simp
next
  case (chunk len s buf s1 s')
  with stream_read_patch_frame [OF chunk(2)] show ?case by simp
qed

lemma copy_bytewise_patch_frame: "patch (copy_bytewise n s) = patch s"
  by (induction n arbitrary: s) (auto simp: Let_def)

lemma source_copy_patch_frame:
  assumes "source_copy len s = Some (Inr s')"
  shows "buffer (patch s') = buffer (patch s) \<and> offset (patch s) < offset (patch s')"
  using assms
  by (auto simp: source_copy_def split: sum.splits prod.splits
      dest!: decode_number_advances buffered_copy_patch_frame)

lemma target_copy_patch_frame:
  assumes "target_copy base len s = Some (Inr s')"
  shows "buffer (patch s') = buffer (patch s) \<and> offset (patch s) < offset (patch s')"
  using assms
  by (auto simp: target_copy_def Let_def copy_bytewise_patch_frame
      split: sum.splits prod.splits if_splits
      dest!: decode_number_advances buffered_copy_patch_frame)

lemma instruction_patch_frame:
  assumes "instruction base s = Some (Inr s')"
  shows "buffer (patch s') = buffer (patch s) \<and> offset (patch s) < offset (patch s')
    \<and> offset (patch s) < length (buffer (patch s))"
proof -
  obtain data p where dec: "decode_number (patch s) = Inr (data, p)"
    using assms by (auto simp: instruction_def split: sum.splits)
  note adv = decode_number_advances [OF dec]
  let ?s1 = "s\<lparr>patch := p\<rparr>"
  have "buffer (patch s') = buffer (patch ?s1) \<and> offset (patch ?s1) \<le> offset (patch s')"
    using assms dec
    by (auto simp: instruction_def Let_def split: if_splits
        dest!: buffered_copy_patch_frame source_copy_patch_frame target_copy_patch_frame)
  with adv show ?thesis by simp
qed

text \<open>The instruction loop of \<^verbatim>\<open>_patch\<close>.\<close>

function instruction_loop :: "nat \<Rightarrow> int \<Rightarrow> PatchState \<Rightarrow> (error + PatchState) option" where
  "instruction_loop target_rel_base patch_end s =
     (if int (position (patch s)) < patch_end then
        (case instruction target_rel_base s of
           None \<Rightarrow> None
         | Some (Inl e) \<Rightarrow> Some (Inl e)
         | Some (Inr s') \<Rightarrow> instruction_loop target_rel_base patch_end s')
      else Some (Inr s))"
  by pat_completeness auto
termination
proof (relation "measure (\<lambda>(base, patch_end, s). length (buffer (patch s)) - offset (patch s))",
    goal_cases)
  case 1
  show ?case by simp
next
  case (2 base patch_end s x2 s')
  from instruction_patch_frame [OF 2(2) [unfolded 2(3)]] show ?case by (simp, arith)
qed

declare instruction_loop.simps [simp del]

section \<open>Stream completion\<close>

text \<open>
  The inner loop of the source drain: \<^verbatim>\<open>while remaining > 0\<close>, reading and discarding
  at most \<open>BUFFER_SIZE\<close> bytes a turn.
\<close>

function drain_chunks :: "int \<Rightarrow> ReadState \<Rightarrow> ReadState" where
  "drain_chunks remaining r =
     (if remaining > 0
      then drain_chunks (remaining - BUFFER_SIZE) (snd (ReadState_read r (min remaining BUFFER_SIZE)))
      else r)"
  by pat_completeness auto
termination
  by (relation "measure (\<lambda>(remaining, r). nat remaining)") (auto simp: BUFFER_SIZE_def)

declare drain_chunks.simps [simp del]

text \<open>
  The outer loop \<^verbatim>\<open>while state.source.position < source_size\<close>. Nothing in it ends the
  loop when the reads return no byte; \<open>None\<close> stands for a run that does not return.
  (The names \<open>source_size\<close> and \<open>target_size\<close> are constants of the word library,
  so the variables are \<open>src_size\<close> and \<open>tgt_size\<close>.)
\<close>

partial_function (option) drain_source :: "int \<Rightarrow> PatchState \<Rightarrow> PatchState option" where
  "drain_source src_size s =
     (if int (position (source s)) < src_size
      then drain_source src_size
             (s\<lparr>source := drain_chunks (src_size - int (position (source s))) (source s)\<rparr>)
      else Some s)"

text \<open>\<^verbatim>\<open>data[:k]\<close>: the first \<open>k\<close> bytes, all but the last \<open>-k\<close> for a negative \<open>k\<close>.\<close>

definition slice_to :: "bytes \<Rightarrow> int \<Rightarrow> bytes" where
  "slice_to data k = (if k < 0 then take (length data - nat (- k)) data else take (nat k) data)"

function pad_chunks :: "int \<Rightarrow> ReadState \<Rightarrow> ReadState" where
  "pad_chunks remaining r =
     (if remaining > 0
      then pad_chunks (remaining - BUFFER_SIZE)
             (ReadState_write r (slice_to EMPTY_DATA (min remaining BUFFER_SIZE)))
      else r)"
  by pat_completeness auto
termination
  by (relation "measure (\<lambda>(remaining, r). nat remaining)") (auto simp: BUFFER_SIZE_def)

declare pad_chunks.simps [simp del]

lemma pad_chunks_position_mono: "position r \<le> position (pad_chunks remaining r)"
proof (induction remaining r rule: pad_chunks.induct)
  case (1 remaining r)
  show ?case
  proof (cases "remaining > 0")
    case True
    from "1.IH" [OF True] show ?thesis
      by (subst pad_chunks.simps) (simp add: True ReadState_write_def)
  next
    case False
    then show ?thesis by (subst pad_chunks.simps) simp
  qed
qed

lemma pad_chunks_position_less:
  assumes "0 < remaining"
  shows "position r < position (pad_chunks remaining r)"
proof -
  let ?w = "ReadState_write r (slice_to EMPTY_DATA (min remaining BUFFER_SIZE))"
  have "0 < length (slice_to EMPTY_DATA (min remaining BUFFER_SIZE))"
    using assms by (simp add: slice_to_def EMPTY_DATA_def BUFFER_SIZE_def min_def)
  then have "position r < position ?w"
    by (simp add: ReadState_write_def)
  also have "\<dots> \<le> position (pad_chunks (remaining - BUFFER_SIZE) ?w)"
    by (rule pad_chunks_position_mono)
  also have "pad_chunks (remaining - BUFFER_SIZE) ?w = pad_chunks remaining r"
    using assms by (subst (2) pad_chunks.simps) simp
  finally show ?thesis .
qed

text \<open>The outer loop \<^verbatim>\<open>while state.target.position < target_size\<close>.\<close>

function pad_target :: "int \<Rightarrow> PatchState \<Rightarrow> PatchState" where
  "pad_target tgt_size s =
     (if int (position (target s)) < tgt_size
      then pad_target tgt_size
             (s\<lparr>target := pad_chunks (tgt_size - int (position (target s))) (target s)\<rparr>)
      else s)"
  by pat_completeness auto
termination
proof (relation "measure (\<lambda>(tgt_size, s). nat (tgt_size - int (position (target s))))",
    goal_cases)
  case 1
  show ?case by simp
next
  case (2 tgt_size s)
  then have "0 < tgt_size - int (position (target s))" by simp
  from pad_chunks_position_less [OF this, of "target s"] 2 show ?case by simp
qed

declare pad_target.simps [simp del]

section \<open>Verification and the result\<close>

record PatchResult =
  source_size :: int
  target_size :: int
  metadata :: bytes
  source_checksum :: int
  target_checksum :: int
  patch_checksum :: int

text \<open>
  The end of \<^verbatim>\<open>_patch\<close>: the three trailer fields and their checks. The first two
  fields are read through the cursor \<open>state.patch\<close>, the third from the file object
  \<^verbatim>\<open>patch\<close> itself, which moves the file's offset and leaves the cursor's position
  and checksum as they are.
\<close>

definition verify ::
  "int \<Rightarrow> int \<Rightarrow> bytes \<Rightarrow> bool \<Rightarrow> PatchState \<Rightarrow> error + (PatchState \<times> PatchResult)" where
  "verify src_size tgt_size meta skip_checksum s =
     (let (d1, p1) = ReadState_read (patch s) 4;
          source_checksum = from_bytes_little d1
      in if \<not> skip_checksum \<and> checksum (source s) \<noteq> source_checksum
         then Inl (ChecksumFailure (''Source checksum '' @ format_x (checksum (source s))
                     @ '' != '' @ format_x source_checksum))
         else
           let (d2, p2) = ReadState_read p1 4;
               target_checksum = from_bytes_little d2
           in if \<not> skip_checksum \<and> checksum (target s) \<noteq> target_checksum
              then Inl (ChecksumFailure (''Source checksum '' @ format_x (checksum (target s))
                          @ '' != '' @ format_x target_checksum))
              else
                let d3 = file_read (buffer p2) (offset p2) 4;
                    p3 = p2\<lparr>offset := offset p2 + length d3\<rparr>;
                    patch_checksum = from_bytes_little d3
                in if \<not> skip_checksum \<and> checksum p3 \<noteq> patch_checksum
                   then Inl (ChecksumFailure (''Source checksum '' @ format_x (checksum p3)
                               @ '' != '' @ format_x patch_checksum))
                   else Inr (s\<lparr>patch := p3\<rparr>,
                             \<lparr>source_size = src_size, target_size = tgt_size, metadata = meta,
                              source_checksum = source_checksum,
                              target_checksum = target_checksum,
                              patch_checksum = patch_checksum\<rparr>))"

text \<open>
  \<^verbatim>\<open>_patch\<close>, on the file objects that \<^verbatim>\<open>patch\<close> hands to it: each freshly opened, at
  offset 0, the target file emptied by its mode \<^verbatim>\<open>'wb'\<close>. The function is modelled in
  three parts. \<open>read_header\<close> is its start, up to the instruction loop: it returns the
  three header values and the state.
\<close>

definition read_header ::
  "bytes \<Rightarrow> bytes \<Rightarrow> error + (int \<times> int \<times> bytes \<times> PatchState)" where
  "read_header source_file patch_file =
     (let state = \<lparr>source = new_ReadState source_file 0,
                   patch = new_ReadState patch_file 0,
                   target = new_ReadState [] 0,
                   source_rel = 0, target_rel = 0\<rparr>;
          (magic, p0) = ReadState_read (patch state) 4
      in if magic \<noteq> MAGIC
         then Inl (InvalidFormatError
                (''File magic '' @ repr_bytes magic @ '' != '' @ repr_bytes MAGIC))
         else
           (case decode_number p0 of
              Inl e \<Rightarrow> Inl e
            | Inr (src_size, p1) \<Rightarrow>
           (case decode_number p1 of
              Inl e \<Rightarrow> Inl e
            | Inr (tgt_size, p2) \<Rightarrow>
           (case decode_number p2 of
              Inl e \<Rightarrow> Inl e
            | Inr (metadata_size, p3) \<Rightarrow>
               (let (meta, p4) = ReadState_read p3 metadata_size
                in Inr (src_size, tgt_size, meta, state\<lparr>patch := p4\<rparr>))))))"

text \<open>
  \<open>patch_body\<close> goes on to the end of the two completion loops. The \<^verbatim>\<open>print\<close> of the
  target position after each instruction is not modelled.
\<close>

definition patch_body ::
  "bytes \<Rightarrow> bytes \<Rightarrow> int \<Rightarrow> (error + (int \<times> int \<times> bytes \<times> PatchState)) option" where
  "patch_body source_file patch_file patch_size =
     (case read_header source_file patch_file of
        Inl e \<Rightarrow> Some (Inl e)
      | Inr (src_size, tgt_size, meta, state1) \<Rightarrow>
          (let target_rel_base = target_rel state1;
               patch_end = patch_size - 12
           in case instruction_loop target_rel_base patch_end state1 of
                None \<Rightarrow> None
              | Some (Inl e) \<Rightarrow> Some (Inl e)
              | Some (Inr state2) \<Rightarrow>
                  (case drain_source src_size state2 of
                     None \<Rightarrow> None
                   | Some state3 \<Rightarrow>
                       Some (Inr (src_size, tgt_size, meta, pad_target tgt_size state3)))))"

text \<open>
  The whole of \<^verbatim>\<open>_patch\<close>: \<open>patch_body\<close>, then the trailer. The result holds the final
  state next to the
  \<^verbatim>\<open>PatchResult\<close>: the target file is \<open>buffer (target state)\<close>.
\<close>

definition patch_inner ::
  "bytes \<Rightarrow> bytes \<Rightarrow> int \<Rightarrow> bool \<Rightarrow> (error + (PatchState \<times> PatchResult)) option" where
  "patch_inner source_file patch_file patch_size skip_checksum =
     (case patch_body source_file patch_file patch_size of
        None \<Rightarrow> None
      | Some (Inl e) \<Rightarrow> Some (Inl e)
      | Some (Inr (src_size, tgt_size, meta, state)) \<Rightarrow>
          Some (verify src_size tgt_size meta skip_checksum state))"

text \<open>
  \<^verbatim>\<open>patch\<close> with the three files given by path: it opens them and, when no
  \<open>patch_size\<close> is given, takes the length of the patch file.
\<close>

definition patch_open ::
  "bytes \<Rightarrow> bytes \<Rightarrow> int option \<Rightarrow> bool \<Rightarrow> (error + (PatchState \<times> PatchResult)) option" where
  "patch_open source_file patch_file patch_size skip_checksum =
     patch_inner source_file patch_file
       (case patch_size of None \<Rightarrow> int (length patch_file) | Some n \<Rightarrow> n) skip_checksum"

section \<open>The disassembler\<close>

text \<open>
  \<^verbatim>\<open>dis\<close> prints; the model collects the printed lines. \<^verbatim>\<open>print(a, b)\<close> joins its
  arguments with one space. A run that raises is modelled by its error alone: the lines
  printed before the error are not kept.
\<close>

function dis_loop :: "int \<Rightarrow> ReadState \<Rightarrow> string list \<Rightarrow> error + (ReadState \<times> string list)" where
  "dis_loop patch_end reader out =
     (if int (position reader) < patch_end then
        (case decode_number reader of
           Inl e \<Rightarrow> Inl e
         | Inr (data, r1) \<Rightarrow>
             (let command = data AND 3;
                  len = drop_bit 2 data + 1
              in if command = 0
                 then dis_loop patch_end r1 (out @ [''   SourceRead '' @ str_int len])
                 else if command = 1
                 then dis_loop patch_end (snd (ReadState_read r1 len))
                        (out @ [''   TargetRead '' @ str_int len @ '' ''
                                @ repr_bytes (fst (ReadState_read r1 len))])
                 else if command = 2
                 then (case decode_number r1 of
                         Inl e \<Rightarrow> Inl e
                       | Inr (data2, r2) \<Rightarrow>
                           dis_loop patch_end r2
                             (out @ [''   SourceCopy '' @ str_int (signed_offset data2)]))
                 else if command = 3
                 then (case decode_number r1 of
                         Inl e \<Rightarrow> Inl e
                       | Inr (data2, r2) \<Rightarrow>
                           dis_loop patch_end r2
                             (out @ [''   TargetCopy '' @ str_int (signed_offset data2)]))
                 else Inl (invalid_command command)))
      else Inr (reader, out))"
  by pat_completeness auto
termination
  by (relation "measure (\<lambda>(patch_end, reader, out). length (buffer reader) - offset reader)")
     (auto dest!: decode_number_advances simp: ReadState_read_def Let_def)

declare dis_loop.simps [simp del]

definition dis :: "bytes \<Rightarrow> int \<Rightarrow> error + string list" where
  "dis patch_file patch_size =
     (let reader = new_ReadState patch_file 0;
          (magic, r0) = ReadState_read reader 4;
          out0 = [''string          '' @ repr_bytes magic]
      in case decode_number r0 of
           Inl e \<Rightarrow> Inl e
         | Inr (src_size, r1) \<Rightarrow>
        (case decode_number r1 of
           Inl e \<Rightarrow> Inl e
         | Inr (tgt_size, r2) \<Rightarrow>
        (case decode_number r2 of
           Inl e \<Rightarrow> Inl e
         | Inr (metadata_size, r3) \<Rightarrow>
            (let (meta, r4) = ReadState_read r3 metadata_size;
                 out1 = out0 @ [''source-size     '' @ str_int src_size,
                                ''target-size     '' @ str_int tgt_size,
                                ''metadata-size   '' @ str_int metadata_size,
                                ''metadata        '' @ repr_bytes meta,
                                ''repeat''];
                 patch_end = patch_size - 12
             in case dis_loop patch_end r4 out1 of
                  Inl e \<Rightarrow> Inl e
                | Inr (r5, out2) \<Rightarrow>
                    (let (d1, r6) = ReadState_read r5 4;
                         (d2, r7) = ReadState_read r6 4;
                         d3 = file_read (buffer r7) (offset r7) 4
                     in Inr (out2 @ [''source-checksum '' @ format_x (from_bytes_little d1),
                                     ''target-checksum '' @ format_x (from_bytes_little d2),
                                     ''patch-checksum  '' @ format_x (from_bytes_little d3)]))))))"

section \<open>Reference definitions\<close>

text \<open>
  The VarInt algorithm in the words of the format description, on the bytes that remain
  in the stream: the value starts at 0 and the scale at 1; each byte adds its low seven
  bits times the scale; a byte with the high bit set ends the number; otherwise the scale
  is multiplied by 128 and then added to the value. The result is the value and the bytes
  left over, or \<open>None\<close> when the bytes run out first.
\<close>

fun varint_spec :: "int \<Rightarrow> int \<Rightarrow> bytes \<Rightarrow> (int \<times> bytes) option" where
  "varint_spec v scale [] = None"
| "varint_spec v scale (b # bs) =
     (let v = v + (uint b AND 0x7f) * scale
      in if bit b 7 then Some (v, bs)
         else let scale = scale * 128; v = v + scale in varint_spec v scale bs)"

text \<open>
  Modelled from the spec: the encoder that goes with this scheme, which is not part of
  the program. It is the counterpart of the decoder, writing seven bits a byte, lowest
  first, and taking one off the remaining quotient for every continuation byte.
\<close>

function encode_number :: "nat \<Rightarrow> bytes" where
  "encode_number n =
     (let x = n mod 128; d = n div 128
      in if d = 0 then [0x80 OR word_of_nat x] else word_of_nat x # encode_number (d - 1))"
  by pat_completeness auto
termination
  by (relation "measure id") auto

declare encode_number.simps [simp del]

text \<open>Whether a result is a failure of the kind \<^verbatim>\<open>InvalidFormatError\<close>.\<close>

definition is_format_error :: "error + 'a \<Rightarrow> bool" where
  "is_format_error res = (case res of Inl (InvalidFormatError m) \<Rightarrow> True | _ \<Rightarrow> False)"

text \<open>
  The invariant of a checksum cursor that started at offset 0 of its file: its position is
  the file offset, and its checksum is the CRC-32 of the bytes before it.
\<close>

definition cursor_ok :: "ReadState \<Rightarrow> bool" where
  "cursor_ok r \<longleftrightarrow>
     offset r = position r \<and> position r \<le> length (buffer r)
     \<and> checksum r = crc32 (take (position r) (buffer r)) 0"

text \<open>
  The run that a TargetCopy stands for, in the words of the format: \<open>n\<close> times, the byte
  at the read offset of the target is appended to the target and the read offset moves
  on by one, so that each byte written can be read by a later step.
\<close>

fun repeat_run :: "bytes \<Rightarrow> nat \<Rightarrow> nat \<Rightarrow> bytes" where
  "repeat_run t off 0 = t"
| "repeat_run t off (Suc n) = repeat_run (t @ [t ! off]) (Suc off) n"

text \<open>
  The state at the head of the instruction loop of \<^verbatim>\<open>_patch\<close> after \<open>k\<close> turns: the loop
  condition held and the instruction returned a state \<open>k\<close> times. It is \<open>None\<close> when the
  loop ends, fails or does not return before that.
\<close>

fun loop_turns :: "nat \<Rightarrow> nat \<Rightarrow> int \<Rightarrow> PatchState \<Rightarrow> PatchState option" where
  "loop_turns 0 target_rel_base patch_end s = Some s"
| "loop_turns (Suc k) target_rel_base patch_end s =
     (if int (position (patch s)) < patch_end
      then (case instruction target_rel_base s of
              Some (Inr s') \<Rightarrow> loop_turns k target_rel_base patch_end s'
            | _ \<Rightarrow> None)
      else None)"

section \<open>Concrete patches\<close>

definition hello :: bytes where
  "hello = [0x68, 0x65, 0x6c, 0x6c, 0x6f]"

text \<open>
  A patch with \<open>source_size = 0\<close>, \<open>target_size = 5\<close>, no metadata and the one
  instruction TargetRead(5) with the literal \<open>hello\<close>, followed by a source checksum of 0
  and the given bytes for the target and the patch checksum.
\<close>

definition hello_patch_with :: "bytes \<Rightarrow> bytes \<Rightarrow> bytes" where
  "hello_patch_with target_field patch_field =
     MAGIC @ [0x80, 0x85, 0x80] @ [0x91] @ hello
       @ [0x00, 0x00, 0x00, 0x00] @ target_field @ patch_field"

definition hello_patch :: bytes where
  "hello_patch = hello_patch_with [0x86, 0xa6, 0x10, 0x36] [0x9d, 0x4b, 0xa4, 0x29]"

definition abcde :: bytes where
  "abcde = [0x41, 0x42, 0x43, 0x44, 0x45]"

text \<open>
  A patch for a 5-byte source and a 5-byte target with the instructions SourceRead(3) and
  SourceCopy(2) with the given offset byte: \<open>0x87\<close> encodes the offset \<open>-3\<close>, \<open>0x80\<close>
  the offset \<open>0\<close>. The trailer is right for the source \<open>ABCDE\<close>, the target \<open>ABCAB\<close>
  and the offset byte \<open>0x80\<close>.
\<close>

definition scenario_patch :: "byte \<Rightarrow> bytes" where
  "scenario_patch delta = MAGIC @ [0x85, 0x85, 0x80] @ [0x88] @ [0x86, delta]
     @ [0xd5, 0x1a, 0xd3, 0x72] @ [0x33, 0x7b, 0xc0, 0x91] @ [0x84, 0x39, 0x85, 0xf0]"

text \<open>A patch that declares a source of one byte and has no instruction.\<close>

definition short_source_patch :: bytes where
  "short_source_patch = MAGIC @ [0x81, 0x80, 0x80] @ replicate 12 0"

text \<open>
  A patch of 20 bytes whose one instruction, TargetRead(1), starts at offset 7, below
  \<open>20 - 12\<close>, and takes its literal from offset 8: only 11 bytes are left for the trailer.
\<close>

definition overshoot_patch :: bytes where
  "overshoot_patch = MAGIC @ [0x80, 0x81, 0x80] @ [0x81, 0xae]
     @ [0x00, 0x00, 0x00, 0x00] @ [0x62, 0x61, 0x6c, 0xe3] @ [0xd3, 0xe6, 0xc8]"

text \<open>
  A patch with no source whose target is \<^verbatim>\<open>abababa\<close>: a TargetRead of the two bytes
  \<^verbatim>\<open>ab\<close>, then a TargetCopy of length 5 (opcode word \<open>0x93\<close>, 19) that moves the
  back-reference cursor by 0 (offset word \<open>0x80\<close>), so that it reads from offset 0 with
  the write position at 2: the byte-by-byte path, reading three bytes that the copy itself
  writes.
\<close>

definition rle_patch :: bytes where
  "rle_patch = MAGIC @ [0x80, 0x87, 0x80] @ [0x85, 0x61, 0x62] @ [0x93, 0x80]
     @ [0x00, 0x00, 0x00, 0x00] @ [0xf7, 0xae, 0x87, 0xe4] @ [0xfa, 0x2a, 0x6c, 0x35]"

text \<open>
  A patch with no source whose target is the ten digits followed by \<^verbatim>\<open>123456789123\<close>: a
  TargetRead of the digits (opcode word \<open>0xa5\<close>), then a TargetCopy of length 12 (opcode
  word \<open>0xaf\<close>, 47) that moves the back-reference cursor forward by 1 (offset word
  \<open>0x82\<close>), so that it reads from offset 1 with the write position at 10: the bulk path,
  with chunks of 9 bytes, the second chunk reading bytes that the first one wrote.
\<close>

definition digits :: bytes where
  "digits = [0x30, 0x31, 0x32, 0x33, 0x34, 0x35, 0x36, 0x37, 0x38, 0x39]"

definition bulk_patch :: bytes where
  "bulk_patch = MAGIC @ [0x80, 0x96, 0x80] @ [0xa5] @ digits @ [0xaf, 0x82]
     @ [0x00, 0x00, 0x00, 0x00] @ [0xea, 0xf4, 0x87, 0x4f] @ [0xc1, 0x70, 0xf2, 0x31]"

text \<open>
  A state in the middle of a run on a patch file with no source: the patch cursor has
  read the first \<open>k\<close> bytes of the patch, the target holds \<open>t\<close>, written through the
  cursor, and the target back-reference cursor is at \<open>rel\<close>.
\<close>

definition mid_run :: "bytes \<Rightarrow> nat \<Rightarrow> bytes \<Rightarrow> nat \<Rightarrow> PatchState" where
  "mid_run patch_file k t rel =
     \<lparr>source = new_ReadState [] 0,
      patch = snd (ReadState_read (new_ReadState patch_file 0) (int k)),
      target = ReadState_write (new_ReadState [] 0) t,
      source_rel = 0, target_rel = rel\<rparr>"

section \<open>Properties of the VarInt codec\<close>

lemma high_bit: "(uint (b :: byte) AND 0x80 \<noteq> 0) = bit b 7"
  using bit_iff_and_push_bit_not_eq_0 [of "uint b" 7] by (simp add: bit_uint_iff)

lemma varint_spec_rest:
  "varint_spec v scale xs = Some (w, rest) \<Longrightarrow> length rest < length xs"
  by (induction xs arbitrary: v scale) (fastforce simp: Let_def split: if_splits)+

lemma read_one:
  assumes "drop (offset r) (buffer r) = b # bs"
  shows "ReadState_read r 1 = ([b], r\<lparr>offset := offset r + 1, position := position r + 1,
           checksum := crc32 [b] (checksum r)\<rparr>)"
  using assms by (simp add: ReadState_read_def file_read_def Let_def crc32_masked)

lemma read_one_more:
  assumes "drop (offset r) (buffer r) = b # bs"
  shows "snd (ReadState_read (snd (ReadState_read r 1)) (int k)) = snd (ReadState_read r (int (Suc k)))"
proof -
  have d: "drop (Suc (offset r)) (buffer r) = bs"
    using assms by (metis drop_Suc list.sel(3) tl_drop)
  have n: "nat (1 + int k) = Suc k" by simp
  show ?thesis
    using assms d
    by (simp add: read_one [OF assms] ReadState_read_def file_read_def Let_def crc32_masked
        crc32_append n)
qed

lemma decode_loop_spec:
  "decode_loop d sh r =
     (case varint_spec d sh (drop (offset r) (buffer r)) of
        None \<Rightarrow> Inl IndexError
      | Some (v, rest) \<Rightarrow>
          Inr (v, snd (ReadState_read r (int (length (buffer r) - offset r - length rest)))))"
proof (induction "drop (offset r) (buffer r)" arbitrary: d sh r)
  case Nil
  then show ?case
    by (subst decode_loop.simps) (simp add: ReadState_read_def file_read_def Let_def)
next
  case (Cons b bs)
  note xs = Cons.hyps(2) [symmetric]
  let ?r1 = "r\<lparr>offset := offset r + 1, position := position r + 1,
           checksum := crc32 [b] (checksum r)\<rparr>"
  have r1: "ReadState_read r 1 = ([b], ?r1)"
    by (rule read_one [OF xs])
  have r1': "snd (ReadState_read r 1) = ?r1"
    by (simp add: r1)
  have d1: "drop (offset ?r1) (buffer ?r1) = bs"
    using xs by simp (metis drop_Suc list.sel(3) tl_drop)
  show ?case
  proof (cases "bit b 7")
    case True
    have "length (buffer r) - offset r = Suc (length bs)"
      using xs by (metis length_Cons length_drop)
    with True xs r1 show ?thesis
      by (subst decode_loop.simps) (simp add: Let_def high_bit)
  next
    case False
    have len: "length (buffer r) - offset r = Suc (length bs)"
      using xs by (metis length_Cons length_drop)
    have len1: "length (buffer ?r1) - offset ?r1 = length bs"
      using d1 by (metis length_drop)
    have IH: "decode_loop d' sh' ?r1 =
      (case varint_spec d' sh' bs of None \<Rightarrow> Inl IndexError
       | Some (v, rest) \<Rightarrow> Inr (v, snd (ReadState_read ?r1 (int (length bs - length rest)))))" for d' sh'
      using Cons.hyps(1) [OF d1 [symmetric], of d' sh'] unfolding d1 len1 .
    have step: "decode_loop d sh r =
        decode_loop (d + (uint b AND 0x7f) * sh + sh * 128) (sh * 128) ?r1"
      using False r1 by (subst decode_loop.simps) (simp add: Let_def high_bit push_bit_eq_mult mult.commute)
    show ?thesis
    proof (cases "varint_spec (d + (uint b AND 0x7f) * sh + sh * 128) (sh * 128) bs")
      case None
      with False xs step IH show ?thesis by (simp add: Let_def)
    next
      case (Some a)
      obtain v rest where a: "a = (v, rest)" by (cases a)
      from varint_spec_rest [OF Some [unfolded a]] have "length rest < length bs" .
      then have "Suc (length bs) - length rest = Suc (length bs - length rest)" by simp
      with False xs step IH Some a len
        read_one_more [OF xs, of "length bs - length rest", unfolded r1']
      show ?thesis by (simp add: Let_def)
    qed
  qed
qed

lemma low7_small:
  assumes "x < 128"
  shows "uint (word_of_nat x :: byte) AND 0x7f = int x"
proof -
  have u: "uint (word_of_nat x :: byte) = int x"
    using assms by (simp add: unsigned_of_nat take_bit_nat_eq_self)
  have "(0x7f :: int) = mask 7" by (simp add: mask_eq_exp_minus_1)
  then have "int x AND 0x7f = take_bit 7 (int x)" by (simp add: take_bit_eq_mask)
  also have "\<dots> = int x" using assms by (simp add: take_bit_int_eq_self)
  finally show ?thesis by (simp add: u)
qed

lemma bit7_small:
  assumes "x < 128"
  shows "\<not> bit (word_of_nat x :: byte) 7"
proof -
  have "\<not> bit x 7" using assms by (simp add: bit_iff_odd)
  then show ?thesis by (simp add: bit_simps)
qed

lemma low7_or:
  "uint (0x80 OR (w :: byte)) AND 0x7f = uint w AND 0x7f"
proof -
  have "(0x80 OR w) AND 0x7f = w AND 0x7f"
    by (rule bit_word_eqI) (auto simp: bit_simps numeral_eq_Suc bit_Suc bit_0 elim!: less_SucE)
  then have "uint ((0x80 OR w) AND 0x7f) = uint (w AND 0x7f)" by simp
  then show ?thesis by (simp add: uint_and)
qed

lemma bit7_or: "bit (0x80 OR (w :: byte)) 7"
  by (simp add: bit_simps) 


lemma varint_spec_encode:
  "varint_spec d sh (encode_number n @ tail) = Some (d + sh * int n, tail)"
proof (induction n arbitrary: d sh rule: encode_number.induct)
  case (1 n)
  have x: "n mod 128 < 128" by simp
  show ?case
  proof (cases "n div 128 = 0")
    case True
    then have nn: "n < 128" by (simp add: div_eq_0_iff)
    then have "n mod 128 = n" by simp
    with True show ?thesis
      by (subst encode_number.simps)
         (simp add: Let_def low7_or bit7_or low7_small [OF nn] mult.commute)
  next
    case False
    then have d: "int (n div 128 - 1) = int (n div 128) - 1" by simp
    have n: "int n = 128 * int (n div 128) + int (n mod 128)"
      by (metis mult_div_mod_eq of_nat_add of_nat_mult of_nat_numeral)
    have "varint_spec d sh (encode_number n @ tail) =
        varint_spec (d + int (n mod 128) * sh + sh * 128) (sh * 128)
          (encode_number (n div 128 - 1) @ tail)"
      using False
      by (subst encode_number.simps) (simp add: Let_def bit7_small [OF x] low7_small [OF x])
    also have "\<dots> = Some (d + int (n mod 128) * sh + sh * 128 + sh * 128 * int (n div 128 - 1), tail)"
      by (rule "1.IH" [OF refl refl False])
    also have "d + int (n mod 128) * sh + sh * 128 + sh * 128 * int (n div 128 - 1) = d + sh * int n"
      unfolding d by (subst n) (simp add: algebra_simps)
    finally show ?thesis .
  qed
qed

lemma varint_spec_None:
  "\<forall>b \<in> set xs. \<not> bit b 7 \<Longrightarrow> varint_spec d sh xs = None"
  by (induction xs arbitrary: d sh) (simp_all add: Let_def)

text \<open>
  Claim C7. \<^verbatim>\<open>_decode_number\<close> computes exactly the VarInt algorithm of the format
  description: on any cursor its result is the value of \<open>varint_spec\<close> on the remaining
  bytes, with the cursor moved over exactly the bytes of the number (and \<^verbatim>\<open>IndexError\<close>
  when the bytes run out). For every natural number \<open>n\<close>, decoding the encoding of \<open>n\<close>,
  whatever follows it, gives \<open>n\<close> and consumes exactly the encoding.
\<close>

theorem decode_number_varint:
  "decode_number r =
     (case varint_spec 0 1 (drop (offset r) (buffer r)) of
        None \<Rightarrow> Inl IndexError
      | Some (v, rest) \<Rightarrow>
          Inr (v, snd (ReadState_read r (int (length (buffer r) - offset r - length rest)))))
   \<and> decode_number (new_ReadState (encode_number n @ tail) 0) =
       Inr (int n, snd (ReadState_read (new_ReadState (encode_number n @ tail) 0)
                          (int (length (encode_number n)))))"
proof
  show "decode_number r =
     (case varint_spec 0 1 (drop (offset r) (buffer r)) of
        None \<Rightarrow> Inl IndexError
      | Some (v, rest) \<Rightarrow>
          Inr (v, snd (ReadState_read r (int (length (buffer r) - offset r - length rest)))))"
    unfolding decode_number_def by (rule decode_loop_spec)
next
  let ?r = "new_ReadState (encode_number n @ tail) 0"
  have "drop (offset ?r) (buffer ?r) = encode_number n @ tail"
    by (simp add: new_ReadState_def)
  moreover have "length (buffer ?r) - offset ?r - length tail = length (encode_number n)"
    by (simp add: new_ReadState_def)
  ultimately show "decode_number ?r =
      Inr (int n, snd (ReadState_read ?r (int (length (encode_number n)))))"
    unfolding decode_number_def
    by (simp add: decode_loop_spec varint_spec_encode del: of_nat_diff)
qed

text \<open>
  Claim C3 (as amended). When the stream is exhausted before a byte with the high bit set
  is seen, \<^verbatim>\<open>_decode_number\<close> fails with \<^verbatim>\<open>IndexError\<close>, raised by indexing the empty
  read; this is not the format error \<^verbatim>\<open>InvalidFormatError\<close>.
\<close>

theorem decode_number_truncated:
  assumes "\<forall>b \<in> set (drop (offset r) (buffer r)). \<not> bit b 7"
  shows "decode_number r = Inl IndexError \<and> \<not> is_format_error (decode_number r)"
  unfolding decode_number_def
  by (simp add: decode_loop_spec varint_spec_None [OF assms] is_format_error_def)

theorem decode_number_truncated_witness:
  "decode_number (new_ReadState [0x00, 0x7f, 0x10] 0) = Inl IndexError
   \<and> \<not> is_format_error
         (decode_number (new_ReadState [0x00, 0x7f, 0x10] 0) :: error + (int \<times> ReadState))"
proof -
  have h: "\<forall>b \<in> set (drop (offset (new_ReadState [0x00, 0x7f, 0x10] 0))
      (buffer (new_ReadState [0x00, 0x7f, 0x10] 0))). \<not> bit b 7"
    by (simp add: new_ReadState_def)
  from decode_number_truncated [OF h] show ?thesis .
qed

text \<open>
  The claim as first stated, a format error on a truncated stream, fails on the two-byte
  stream \<open>01 02\<close>.
\<close>

theorem decode_number_truncated_counterexample:
  "decode_number (new_ReadState [0x01, 0x02] 0) = Inl IndexError
   \<and> \<not> is_format_error (decode_number (new_ReadState [0x01, 0x02] 0))"
  by (simp add: decode_number_def decode_loop.simps ReadState_read_def file_read_def Let_def
      new_ReadState_def is_format_error_def)

section \<open>Runs on the concrete patches\<close>

lemmas run_simps = patch_open_def patch_inner_def patch_body_def read_header_def
  new_ReadState_def ReadState_read_def ReadState_write_def file_read_def Let_def MAGIC_def
  decode_number_def decode_loop.simps instruction_loop.simps instruction_def
  source_copy_def target_copy_def seek_cur_def signed_offset_def
  buffered_copy.simps BUFFER_SIZE_def drain_source.simps drain_chunks.simps pad_target.simps
  pad_chunks.simps verify_def crc32_masked crc32_append crc32_Nil
  format_x_def hex_nat.simps hex_digit_def

lemmas crc_simps = crc32_def crc_byte_def crc_bit_def

lemma crc_hello: "crc32 [0x68, 0x65, 0x6c, 0x6c, 0x6f] 0 = 0x3610a686"
  by (simp add: crc_simps)

lemma crc_hello_patch:
  "crc32 [0x42, 0x50, 0x53, 0x31, 0x80, 0x85, 0x80, 0x91, 0x68, 0x65, 0x6c, 0x6c, 0x6f,
          0x00, 0x00, 0x00, 0x00, 0x86, 0xa6, 0x10, 0x36] 0 = 0x29a44b9d"
  by (simp add: crc_simps)

lemma crc_abcde: "crc32 [0x41, 0x42, 0x43, 0x44, 0x45] 0 = 0x72d31ad5"
  by (simp add: crc_simps)

lemma crc_abcab: "crc32 [0x41, 0x42, 0x43, 0x41, 0x42] 0 = 0x91c07b33"
  by (simp add: crc_simps)

lemma crc_scenario_patch:
  "crc32 [0x42, 0x50, 0x53, 0x31, 0x85, 0x85, 0x80, 0x88, 0x86, 0x80,
          0xd5, 0x1a, 0xd3, 0x72, 0x33, 0x7b, 0xc0, 0x91] 0 = 0xf0853984"
  by (simp add: crc_simps)

lemma crc_ae: "crc32 [0xae] 0 = 0xe36c6162"
  by (simp add: crc_simps)

lemma crc_overshoot_patch:
  "crc32 [0x42, 0x50, 0x53, 0x31, 0x80, 0x81, 0x80, 0x81, 0xae,
          0x00, 0x00, 0x00, 0x00, 0x62, 0x61, 0x6c, 0xe3] 0 = 0xc8e6d3"
  by (simp add: crc_simps)

text \<open>
  Claim C6. On the patch \<open>hello_patch\<close> and an empty source, \<^verbatim>\<open>patch\<close> returns; the
  target file holds \<open>hello\<close>; the \<^verbatim>\<open>PatchResult\<close> has the sizes 0 and 5, no metadata and
  the three trailer values, each equal to the checksum computed by its cursor; and the
  trailer values are the CRC-32 of the empty source, of \<open>hello\<close> and of the first 21 bytes
  of the patch.
\<close>

theorem hello_scenario:
  "patch_open [] hello_patch None False =
     Some (Inr (\<lparr>source = \<lparr>buffer = [], offset = 0, position = 0, checksum = 0\<rparr>,
                 patch = \<lparr>buffer = hello_patch, offset = 25, position = 21,
                          checksum = 0x29a44b9d\<rparr>,
                 target = \<lparr>buffer = hello, offset = 5, position = 5, checksum = 0x3610a686\<rparr>,
                 source_rel = 0, target_rel = 0\<rparr>,
                \<lparr>source_size = 0, target_size = 5, metadata = [],
                 source_checksum = 0, target_checksum = 0x3610a686,
                 patch_checksum = 0x29a44b9d\<rparr>))
   \<and> from_bytes_little (take 4 (drop 13 hello_patch)) = crc32 [] 0
   \<and> from_bytes_little (take 4 (drop 17 hello_patch)) = crc32 hello 0
   \<and> from_bytes_little (drop 21 hello_patch) = crc32 (take 21 hello_patch) 0"
  using crc_hello crc_hello_patch
  by (simp add: run_simps hello_patch_def hello_patch_with_def hello_def)

text \<open>
  Claim C4. With verification on, a wrong target checksum and a wrong patch checksum are
  both reported under the name of the source: the message does not say which field
  failed. Here the target field, then the patch field, of \<open>hello_patch\<close> is zeroed.
\<close>

theorem checksum_failure_names_source:
  "patch_open [] (hello_patch_with [0x00, 0x00, 0x00, 0x00] [0x9d, 0x4b, 0xa4, 0x29]) None False
     = Some (Inl (ChecksumFailure ''Source checksum 3610a686 != 0''))
   \<and> patch_open [] (hello_patch_with [0x86, 0xa6, 0x10, 0x36] [0x00, 0x00, 0x00, 0x00]) None False
     = Some (Inl (ChecksumFailure ''Source checksum 29a44b9d != 0''))"
  using crc_hello crc_hello_patch
  by (simp add: run_simps hello_patch_with_def hello_def)

text \<open>
  Claim C2 (as amended). For the source \<open>ABCDE\<close> and the instructions SourceRead(3),
  SourceCopy(2, delta): the first instruction copies \<open>ABC\<close> to the target and moves the
  sequential source cursor to 3, while the source back-reference cursor, a file object of
  its own, stays at 0. With \<open>delta = -3\<close> the seek from 0 is refused and \<^verbatim>\<open>patch\<close> fails
  with \<^verbatim>\<open>OSError\<close>. With \<open>delta = 0\<close> the back-reference cursor reads \<open>AB\<close> from
  position 0 and \<^verbatim>\<open>patch\<close> returns with the target \<open>ABCAB\<close>.
\<close>

theorem source_copy_scenario:
  "(\<exists>s0 s1. read_header abcde (scenario_patch 0x87) = Inr (5, 5, [], s0)
       \<and> instruction 0 s0 = Some (Inr s1)
       \<and> buffer (target s1) = [0x41, 0x42, 0x43]
       \<and> position (source s1) = 3 \<and> source_rel s1 = 0
       \<and> instruction 0 s1 = Some (Inl OSError))
   \<and> patch_open abcde (scenario_patch 0x87) None False = Some (Inl OSError)
   \<and> (\<exists>s0 s1 s2. read_header abcde (scenario_patch 0x80) = Inr (5, 5, [], s0)
       \<and> instruction 0 s0 = Some (Inr s1)
       \<and> buffer (target s1) = [0x41, 0x42, 0x43]
       \<and> position (source s1) = 3 \<and> source_rel s1 = 0
       \<and> instruction 0 s1 = Some (Inr s2)
       \<and> buffer (target s2) = [0x41, 0x42, 0x43, 0x41, 0x42]
       \<and> position (source s2) = 3 \<and> source_rel s2 = 2)
   \<and> (\<exists>s r. patch_open abcde (scenario_patch 0x80) None False = Some (Inr (s, r))
       \<and> buffer (target s) = [0x41, 0x42, 0x43, 0x41, 0x42])"
  using crc_abcde crc_abcab crc_scenario_patch
  by (simp add: run_simps scenario_patch_def abcde_def)

text \<open>
  The scenario as first stated, with \<open>delta = -3\<close>, does not yield a target: the run
  fails.
\<close>

theorem source_copy_scenario_counterexample:
  "patch_open abcde (scenario_patch 0x87) None False = Some (Inl OSError)"
  by (simp add: run_simps scenario_patch_def abcde_def)

text \<open>
  At the end of the source file the reads of the drain loop return no byte and leave the
  cursor where it is.
\<close>

lemma drain_chunks_at_end:
  "length (buffer r) \<le> offset r \<Longrightarrow>
   buffer (drain_chunks remaining r) = buffer r \<and> offset (drain_chunks remaining r) = offset r
   \<and> position (drain_chunks remaining r) = position r"
proof (induction remaining r rule: drain_chunks.induct)
  case (1 remaining r)
  show ?case
  proof (cases "remaining > 0")
    case True
    let ?r1 = "snd (ReadState_read r (min remaining BUFFER_SIZE))"
    have rd: "buffer ?r1 = buffer r \<and> offset ?r1 = offset r \<and> position ?r1 = position r"
      using "1.prems" by (simp add: ReadState_read_def file_read_def Let_def)
    with "1.prems" have "length (buffer ?r1) \<le> offset ?r1" by simp
    from "1.IH" [OF True this] rd True show ?thesis
      by (subst (1 2 3) drain_chunks.simps) simp
  next
    case False
    then show ?thesis by (subst (1 2 3) drain_chunks.simps) simp
  qed
qed

lemma drain_source_stuck:
  assumes "int (position (source s)) < src_size"
    and "length (buffer (source s)) \<le> offset (source s)"
  shows "drain_source src_size s = None"
proof (rule ccontr)
  assume "drain_source src_size s \<noteq> None"
  then obtain s' where run: "drain_source src_size s = Some s'" by blast
  have "\<not> (int (position (source s)) < src_size
      \<and> length (buffer (source s)) \<le> offset (source s))"
  proof (rule drain_source.raw_induct [where P = "\<lambda>src_size s s'.
      \<not> (int (position (source s)) < src_size
        \<and> length (buffer (source s)) \<le> offset (source s))", OF _ run], goal_cases)
    case (1 f n t t')
    show ?case
    proof
      assume stuck: "int (position (source t)) < n
        \<and> length (buffer (source t)) \<le> offset (source t)"
      let ?t1 = "t\<lparr>source := drain_chunks (n - int (position (source t))) (source t)\<rparr>"
      from 1(2) stuck have "f n ?t1 = Some t'" by simp
      from 1(1) [OF this] drain_chunks_at_end [of "source t" "n - int (position (source t))"]
        stuck
      show False by simp
    qed
  qed
  with assms show False by simp
qed

text \<open>
  Claim C5. The claim is that \<^verbatim>\<open>patch\<close> ends on every input. On an empty source file and
  the patch \<open>short_source_patch\<close>, which declares a source of one byte, it does not:
  the drain loop reads nothing, the position stays below \<open>source_size\<close>, and the run
  never returns (the value \<open>None\<close>).
\<close>

theorem short_source_never_returns:
  "patch_open [] short_source_patch None False = None"
  by (simp add: run_simps short_source_patch_def drain_source_stuck del: drain_source.simps)

section \<open>The errors of a run\<close>

lemma and_3_cases: "(d :: int) AND 3 = 0 \<or> d AND 3 = 1 \<or> d AND 3 = 2 \<or> d AND 3 = 3"
proof -
  have m: "mask 2 = (3 :: int)" by (simp add: mask_eq_exp_minus_1)
  have "d AND mask 2 = d mod 2 ^ 2"
    unfolding take_bit_eq_mask [symmetric] take_bit_eq_mod ..
  then have "d AND 3 = d mod 4" unfolding m by simp
  moreover have "0 \<le> d mod 4" "d mod 4 < 4" by simp_all
  ultimately show ?thesis by presburger
qed

lemma decode_number_error: "decode_number r = Inl e \<Longrightarrow> e = IndexError"
  unfolding decode_number_def decode_loop_spec by (simp split: option.splits prod.splits)

lemma seek_cur_error: "seek_cur off delta = Inl e \<Longrightarrow> e = OSError"
  by (simp add: seek_cur_def split: if_splits)

lemma source_copy_error:
  "source_copy len s = Some (Inl e) \<Longrightarrow> e = IndexError \<or> e = OSError"
  by (auto simp: source_copy_def split: sum.splits prod.splits
      dest: decode_number_error seek_cur_error)

lemma target_copy_error:
  "target_copy base len s = Some (Inl e) \<Longrightarrow> e = IndexError \<or> e = OSError"
  by (auto simp: target_copy_def Let_def split: sum.splits prod.splits if_splits
      dest: decode_number_error seek_cur_error)

lemma instruction_error:
  assumes "instruction base s = Some (Inl e)"
  shows "e = IndexError \<or> e = OSError"
proof (cases "decode_number (patch s)")
  case (Inl e')
  with assms show ?thesis by (auto simp: instruction_def dest: decode_number_error)
next
  case (Inr a)
  obtain data p where a: "a = (data, p)" by (cases a)
  from and_3_cases [of data] assms Inr a show ?thesis
    by (auto simp: instruction_def Let_def dest: source_copy_error target_copy_error)
qed

lemma instruction_loop_error:
  "instruction_loop base patch_end s = Some (Inl e) \<Longrightarrow> e = IndexError \<or> e = OSError"
proof (induction base patch_end s rule: instruction_loop.induct)
  case (1 base patch_end s)
  from "1.prems" have run: "int (position (patch s)) < patch_end"
    by (subst (asm) instruction_loop.simps) (simp split: if_splits)
  show ?case
  proof (cases "instruction base s")
    case None
    with "1.prems" run show ?thesis by (subst (asm) instruction_loop.simps) simp
  next
    case (Some a)
    show ?thesis
    proof (cases a)
      case (Inl e')
      with "1.prems" run Some have "e' = e"
        by (subst (asm) instruction_loop.simps) simp
      with Some Inl instruction_error show ?thesis by blast
    next
      case (Inr s')
      with "1.prems" run Some have "instruction_loop base patch_end s' = Some (Inl e)"
        by (subst (asm) instruction_loop.simps) simp
      from "1.IH" [OF run Some Inr this] show ?thesis .
    qed
  qed
qed

lemma read_header_error:
  "read_header source_file patch_file = Inl e \<Longrightarrow>
   e = IndexError \<or> (\<exists>m. e = InvalidFormatError (''File magic '' @ m))"
  by (auto simp: read_header_def Let_def split: prod.splits if_splits sum.splits
      dest: decode_number_error)

lemma patch_body_error:
  "patch_body source_file patch_file patch_size = Some (Inl e) \<Longrightarrow>
   e = IndexError \<or> e = OSError \<or> (\<exists>m. e = InvalidFormatError (''File magic '' @ m))"
  by (auto simp: patch_body_def Let_def split: sum.splits prod.splits option.splits
      dest: read_header_error instruction_loop_error)

lemma verify_error:
  "verify a b m skip s = Inl e \<Longrightarrow> \<not> skip \<and> (\<exists>m. e = ChecksumFailure m)"
  by (auto simp: verify_def Let_def split: prod.splits if_splits)

lemma patch_inner_error:
  "patch_inner source_file patch_file patch_size skip = Some (Inl e) \<Longrightarrow>
   e = IndexError \<or> e = OSError \<or> (\<exists>m. e = InvalidFormatError (''File magic '' @ m))
   \<or> (\<not> skip \<and> (\<exists>m. e = ChecksumFailure m))"
  by (auto simp: patch_inner_def split: sum.splits prod.splits option.splits
      dest: patch_body_error verify_error)

lemma dis_loop_error: "dis_loop patch_end reader out = Inl e \<Longrightarrow> e = IndexError"
proof (induction patch_end reader out rule: dis_loop.induct)
  case (1 patch_end reader out)
  from "1.prems" have run: "int (position reader) < patch_end"
    by (subst (asm) dis_loop.simps) (simp split: if_splits)
  show ?case
  proof (cases "decode_number reader")
    case (Inl e')
    with "1.prems" run show ?thesis
      by (subst (asm) dis_loop.simps) (auto dest: decode_number_error)
  next
    case (Inr a)
    obtain data r1 where a: "a = (data, r1)" by (cases a)
    note rd1 = Inr
    note dec = Inr [unfolded a]
    let ?command = "data AND 3"
    let ?len = "drop_bit 2 data + 1"
    from and_3_cases [of data] consider
      "?command = 0" | "?command = 1" | "?command = 2" | "?command = 3" by blast
    then show ?thesis
    proof cases
      case 1
      with "1.prems" run dec
      have "dis_loop patch_end r1 (out @ [''   SourceRead '' @ str_int ?len]) = Inl e"
        by (subst (asm) dis_loop.simps) (simp add: Let_def)
      from "1.IH"(1) [OF run rd1 a [symmetric] refl refl 1 this] show ?thesis .
    next
      case 2
      then have n0: "?command \<noteq> 0" by simp
      from 2 n0 "1.prems" run dec
      have "dis_loop patch_end (snd (ReadState_read r1 ?len))
          (out @ [''   TargetRead '' @ str_int ?len @ '' ''
                  @ repr_bytes (fst (ReadState_read r1 ?len))]) = Inl e"
        by (subst (asm) dis_loop.simps) (simp add: Let_def)
      from "1.IH"(2) [OF run rd1 a [symmetric] refl refl n0 2 this] show ?thesis .
    next
      case 3
      then have n0: "?command \<noteq> 0" and n1: "?command \<noteq> 1" by simp_all
      show ?thesis
      proof (cases "decode_number r1")
        case (Inl e')
        with 3 "1.prems" run dec show ?thesis
          by (subst (asm) dis_loop.simps) (auto simp: Let_def dest: decode_number_error)
      next
        case (Inr b)
        obtain data2 r2 where b: "b = (data2, r2)" by (cases b)
        note rd2 = Inr
        note dec2 = Inr [unfolded b]
        from 3 "1.prems" run dec dec2
        have "dis_loop patch_end r2
            (out @ [''   SourceCopy '' @ str_int (signed_offset data2)]) = Inl e"
          by (subst (asm) dis_loop.simps) (simp add: Let_def)
        from "1.IH"(3) [OF run rd1 a [symmetric] refl refl n0 n1 3 rd2 b [symmetric] this]
        show ?thesis .
      qed
    next
      case 4
      then have n0: "?command \<noteq> 0" and n1: "?command \<noteq> 1" and n2: "?command \<noteq> 2"
        by simp_all
      show ?thesis
      proof (cases "decode_number r1")
        case (Inl e')
        with 4 "1.prems" run dec show ?thesis
          by (subst (asm) dis_loop.simps) (auto simp: Let_def dest: decode_number_error)
      next
        case (Inr b)
        obtain data2 r2 where b: "b = (data2, r2)" by (cases b)
        note rd2 = Inr
        note dec2 = Inr [unfolded b]
        from 4 "1.prems" run dec dec2
        have "dis_loop patch_end r2
            (out @ [''   TargetCopy '' @ str_int (signed_offset data2)]) = Inl e"
          by (subst (asm) dis_loop.simps) (simp add: Let_def)
        from "1.IH"(4) [OF run rd1 a [symmetric] refl refl n0 n1 n2 4 rd2 b [symmetric] this]
        show ?thesis .
      qed
    qed
  qed
qed

lemma dis_error: "dis patch_file patch_size = Inl e \<Longrightarrow> e = IndexError"
  by (auto simp: dis_def Let_def split: prod.splits sum.splits
      dest: decode_number_error dis_loop_error)

text \<open>
  Claim C10. The instruction kind is the opcode word masked with 3, one of 0, 1, 2, 3, so
  every decoded instruction goes to one of the four kinds: no instruction, no run of
  \<^verbatim>\<open>_patch\<close> and no run of \<^verbatim>\<open>dis\<close> (nor of its loop) ends in the error of
  the \<^verbatim>\<open>else\<close> branch, \<open>invalid_command\<close>, whatever its argument.
\<close>

theorem invalid_command_unreachable:
  "(data AND 3 = 0 \<or> data AND 3 = 1 \<or> data AND 3 = 2 \<or> data AND 3 = (3 :: int))
   \<and> instruction target_rel_base s \<noteq> Some (Inl (invalid_command c))
   \<and> patch_inner source_file patch_file patch_size skip_checksum
        \<noteq> Some (Inl (invalid_command c))
   \<and> dis_loop patch_end reader out \<noteq> Inl (invalid_command c)
   \<and> dis patch_file patch_size \<noteq> Inl (invalid_command c)"
proof (intro conjI)
  show "data AND 3 = 0 \<or> data AND 3 = 1 \<or> data AND 3 = 2 \<or> data AND 3 = 3"
    by (rule and_3_cases)
  show "instruction target_rel_base s \<noteq> Some (Inl (invalid_command c))"
    using instruction_error [of target_rel_base s "invalid_command c"]
    by (auto simp: invalid_command_def)
  show "patch_inner source_file patch_file patch_size skip_checksum
      \<noteq> Some (Inl (invalid_command c))"
    using patch_inner_error [of source_file patch_file patch_size skip_checksum "invalid_command c"]
    by (auto simp: invalid_command_def)
  show "dis_loop patch_end reader out \<noteq> Inl (invalid_command c)"
    using dis_loop_error [of patch_end reader out "invalid_command c"]
    by (auto simp: invalid_command_def)
  show "dis patch_file patch_size \<noteq> Inl (invalid_command c)"
    using dis_error [of patch_file patch_size "invalid_command c"]
    by (auto simp: invalid_command_def)
qed

section \<open>The patch cursor during a run\<close>

lemma cursor_ok_new: "cursor_ok (new_ReadState content 0)"
  by (simp add: cursor_ok_def new_ReadState_def crc32_Nil)

lemma take_add_drop: "take (n + length (take k (drop n xs))) xs = take n xs @ take k (drop n xs)"
  by (simp add: take_add min_def)

lemma cursor_ok_read:
  assumes "cursor_ok r"
  shows "cursor_ok (snd (ReadState_read r n)) \<and> buffer (snd (ReadState_read r n)) = buffer r
    \<and> position r \<le> position (snd (ReadState_read r n))"
proof (cases "n < 0")
  case True
  with assms show ?thesis
    by (simp add: cursor_ok_def ReadState_read_def file_read_def Let_def crc32_masked
        crc32_append)
next
  case False
  with assms take_add_drop [of "position r" "nat n" "buffer r"] show ?thesis
    by (auto simp: cursor_ok_def ReadState_read_def file_read_def Let_def crc32_masked
        crc32_append min_def)
qed

lemma cursor_ok_decode:
  assumes "cursor_ok r" and "decode_number r = Inr (v, r')"
  shows "cursor_ok r' \<and> buffer r' = buffer r \<and> position r \<le> position r'"
proof -
  from assms(2) obtain k where "r' = snd (ReadState_read r k)"
    unfolding decode_number_def decode_loop_spec
    by (auto split: option.splits prod.splits)
  with cursor_ok_read [OF assms(1)] show ?thesis by simp
qed

lemma stream_read_cursor:
  assumes "cursor_ok (patch s)" and "stream_read src n s = (data, s')"
  shows "cursor_ok (patch s') \<and> buffer (patch s') = buffer (patch s)
    \<and> position (patch s) \<le> position (patch s')"
proof (cases src)
  case Patch
  with assms cursor_ok_read [OF assms(1), of n] show ?thesis
    by (auto simp: Let_def split: prod.splits)
qed (use assms in \<open>auto simp: Let_def split: prod.splits\<close>)

lemma buffered_copy_cursor:
  assumes "buffered_copy src len bs s = Some s'" and "cursor_ok (patch s)"
  shows "cursor_ok (patch s') \<and> buffer (patch s') = buffer (patch s)
    \<and> position (patch s) \<le> position (patch s')"
  using assms
proof (induction rule: buffered_copy_induct)
  case (stop len s)
  then show ?case by simp
next
  case (chunk len s buf s1 s')
  from stream_read_cursor [OF chunk.prems chunk.hyps(2)] chunk.IH show ?case by simp
qed

lemma source_copy_cursor:
  assumes "source_copy len s = Some (Inr s')" and "cursor_ok (patch s)"
  shows "cursor_ok (patch s') \<and> buffer (patch s') = buffer (patch s)
    \<and> position (patch s) \<le> position (patch s')"
proof -
  from assms(1) obtain data p off where dec: "decode_number (patch s) = Inr (data, p)"
    and run: "buffered_copy SourceRel len BUFFER_SIZE (s\<lparr>patch := p, source_rel := off\<rparr>)
      = Some s'"
    by (auto simp: source_copy_def split: sum.splits prod.splits)
  from cursor_ok_decode [OF assms(2) dec] buffered_copy_cursor [OF run] show ?thesis by simp
qed

lemma target_copy_cursor:
  assumes "target_copy base len s = Some (Inr s')" and "cursor_ok (patch s)"
  shows "cursor_ok (patch s') \<and> buffer (patch s') = buffer (patch s)
    \<and> position (patch s) \<le> position (patch s')"
proof -
  from assms(1) obtain data p off where dec: "decode_number (patch s) = Inr (data, p)"
    and run: "(\<exists>bs. buffered_copy TargetRel len bs (s\<lparr>patch := p, target_rel := off\<rparr>) = Some s')
      \<or> s' = copy_bytewise (nat len) (s\<lparr>patch := p, target_rel := off\<rparr>)"
    by (auto simp: target_copy_def Let_def split: sum.splits prod.splits if_splits)
  from run cursor_ok_decode [OF assms(2) dec] show ?thesis
    by (auto simp: copy_bytewise_patch_frame dest!: buffered_copy_cursor)
qed

lemma instruction_cursor:
  assumes "instruction base s = Some (Inr s')" and "cursor_ok (patch s)"
  shows "cursor_ok (patch s') \<and> buffer (patch s') = buffer (patch s)
    \<and> position (patch s) \<le> position (patch s')"
proof -
  from assms(1) obtain data p where dec: "decode_number (patch s) = Inr (data, p)"
    by (auto simp: instruction_def split: sum.splits)
  note d = cursor_ok_decode [OF assms(2) dec]
  let ?s1 = "s\<lparr>patch := p\<rparr>"
  from d have ok1: "cursor_ok (patch ?s1)" by simp
  from assms(1) dec have "(\<exists>src len bs. buffered_copy src len bs ?s1 = Some s')
      \<or> (\<exists>len. source_copy len ?s1 = Some (Inr s'))
      \<or> (\<exists>len. target_copy base len ?s1 = Some (Inr s'))"
    by (auto simp: instruction_def Let_def split: if_splits)
  with ok1 have "cursor_ok (patch s') \<and> buffer (patch s') = buffer (patch ?s1)
    \<and> position (patch ?s1) \<le> position (patch s')"
    by (auto dest!: buffered_copy_cursor source_copy_cursor target_copy_cursor)
  with d show ?thesis by simp
qed

lemma instruction_loop_cursor:
  "instruction_loop base patch_end s = Some (Inr s') \<Longrightarrow> cursor_ok (patch s) \<Longrightarrow>
   cursor_ok (patch s') \<and> buffer (patch s') = buffer (patch s)
    \<and> position (patch s) \<le> position (patch s') \<and> patch_end \<le> int (position (patch s'))"
proof (induction base patch_end s rule: instruction_loop.induct)
  case (1 base patch_end s)
  show ?case
  proof (cases "int (position (patch s)) < patch_end")
    case False
    with "1.prems" show ?thesis by (subst (asm) instruction_loop.simps) auto
  next
    case True
    with "1.prems"(1) obtain s1 where step: "instruction base s = Some (Inr s1)"
      and rest: "instruction_loop base patch_end s1 = Some (Inr s')"
      by (subst (asm) instruction_loop.simps) (auto split: option.splits sum.splits)
    note i = instruction_cursor [OF step "1.prems"(2)]
    from "1.IH" [OF True step refl rest] i show ?thesis by simp
  qed
qed

lemma drain_source_patch:
  assumes "drain_source src_size s = Some s'"
  shows "patch s' = patch s \<and> target s' = target s"
proof (rule drain_source.raw_induct [where P = "\<lambda>src_size s s'.
    patch s' = patch s \<and> target s' = target s", OF _ assms], goal_cases)
  case (1 f n t t')
  show ?case
  proof (cases "int (position (source t)) < n")
    case True
    with 1(2) have "f n (t\<lparr>source := drain_chunks (n - int (position (source t))) (source t)\<rparr>)
      = Some t'" by simp
    from 1(1) [OF this] show ?thesis by simp
  next
    case False
    with 1(2) show ?thesis by simp
  qed
qed

lemma pad_target_patch: "patch (pad_target tgt_size s) = patch s \<and> source (pad_target tgt_size s) = source s"
proof (induction tgt_size s rule: pad_target.induct)
  case (1 tgt_size s)
  show ?case
  proof (cases "int (position (target s)) < tgt_size")
    case True
    from "1.IH" [OF True] True show ?thesis by (subst (1 2) pad_target.simps) simp
  next
    case False
    then show ?thesis by (subst (1 2) pad_target.simps) simp
  qed
qed

lemma read_header_cursor:
  assumes "read_header source_file patch_file = Inr (a, b, meta, s)"
  shows "cursor_ok (patch s) \<and> buffer (patch s) = patch_file"
proof -
  let ?p = "new_ReadState patch_file 0"
  let ?p0 = "snd (ReadState_read ?p 4)"
  from assms obtain p1 p2 p3 k where
    d1: "decode_number ?p0 = Inr (a, p1)" and d2: "decode_number p1 = Inr (b, p2)"
    and d3: "decode_number p2 = Inr (k, p3)" and s: "patch s = snd (ReadState_read p3 k)"
    by (auto simp: read_header_def Let_def split: prod.splits if_splits sum.splits)
  have "cursor_ok ?p0 \<and> buffer ?p0 = patch_file"
    using cursor_ok_read [OF cursor_ok_new, of patch_file 4] by (simp add: new_ReadState_def)
  with cursor_ok_decode [OF _ d1] have "cursor_ok p1 \<and> buffer p1 = patch_file" by simp
  with cursor_ok_decode [OF _ d2] have "cursor_ok p2 \<and> buffer p2 = patch_file" by simp
  with cursor_ok_decode [OF _ d3] have "cursor_ok p3 \<and> buffer p3 = patch_file" by simp
  with cursor_ok_read [of p3 k] s show ?thesis by simp
qed

lemma patch_body_cursor:
  assumes "patch_body source_file patch_file patch_size = Some (Inr (a, b, meta, s))"
  shows "cursor_ok (patch s) \<and> buffer (patch s) = patch_file
    \<and> patch_size - 12 \<le> int (position (patch s))"
proof -
  from assms obtain s1 s2 s3 where h: "read_header source_file patch_file = Inr (a, b, meta, s1)"
    and l: "instruction_loop (target_rel s1) (patch_size - 12) s1 = Some (Inr s2)"
    and d: "drain_source a s2 = Some s3" and p: "s = pad_target b s3"
    by (auto simp: patch_body_def Let_def split: sum.splits prod.splits option.splits)
  from read_header_cursor [OF h] instruction_loop_cursor [OF l] drain_source_patch [OF d]
    pad_target_patch [of b s3] p
  show ?thesis by simp
qed

section \<open>Verification\<close>

lemma verify_skip:
  "\<exists>s'. verify a b meta True s =
     Inr (s',
          \<lparr>source_size = a, target_size = b, metadata = meta,
           source_checksum = from_bytes_little (take 4 (drop (offset (patch s)) (buffer (patch s)))),
           target_checksum =
             from_bytes_little (take 4 (drop (offset (patch s) + 4) (buffer (patch s)))),
           patch_checksum =
             from_bytes_little (take 4 (drop (offset (patch s) + 8) (buffer (patch s))))\<rparr>)
     \<and> source s' = source s \<and> target s' = target s"
proof -
  consider "offset (patch s) + 8 \<le> length (buffer (patch s))"
    | "offset (patch s) + 4 \<le> length (buffer (patch s))"
      "length (buffer (patch s)) < offset (patch s) + 8"
    | "length (buffer (patch s)) < offset (patch s) + 4"
    by linarith
  then show ?thesis
  proof cases
    case 1
    then show ?thesis
      by (simp add: verify_def ReadState_read_def file_read_def Let_def min_def add.assoc)
  next
    case 2
    then show ?thesis
      by (simp add: verify_def ReadState_read_def file_read_def Let_def min_def add.assoc)
  next
    case 3
    then show ?thesis
      by (simp add: verify_def ReadState_read_def file_read_def Let_def min_def add.assoc)
  qed
qed

text \<open>
  Claim C9. With the skip flag set no run ends in a checksum error. Whenever the run with
  verification ends in a checksum error, the run with the flag set returns: its
  \<^verbatim>\<open>PatchResult\<close> holds the two sizes, the metadata and the three values of the trailer
  fields for source, target and patch, read from the patch where the header and the
  instructions end, and the source and target cursors, with their computed checksums, are
  those of the state before the trailer.
\<close>

theorem skip_checksum_completes:
  "patch_inner source_file patch_file patch_size True \<noteq> Some (Inl (ChecksumFailure m))
   \<and> (patch_inner source_file patch_file patch_size False = Some (Inl (ChecksumFailure m)) \<longrightarrow>
       (\<exists>a b meta s s'.
          patch_body source_file patch_file patch_size = Some (Inr (a, b, meta, s))
          \<and> patch_inner source_file patch_file patch_size True =
              Some (Inr (s',
                \<lparr>source_size = a, target_size = b, metadata = meta,
                 source_checksum =
                   from_bytes_little (take 4 (drop (offset (patch s)) patch_file)),
                 target_checksum =
                   from_bytes_little (take 4 (drop (offset (patch s) + 4) patch_file)),
                 patch_checksum =
                   from_bytes_little (take 4 (drop (offset (patch s) + 8) patch_file))\<rparr>))
          \<and> source s' = source s \<and> target s' = target s))"
proof
  show "patch_inner source_file patch_file patch_size True \<noteq> Some (Inl (ChecksumFailure m))"
    using patch_inner_error [of source_file patch_file patch_size True "ChecksumFailure m"]
    by auto
  show "patch_inner source_file patch_file patch_size False = Some (Inl (ChecksumFailure m)) \<longrightarrow>
       (\<exists>a b meta s s'.
          patch_body source_file patch_file patch_size = Some (Inr (a, b, meta, s))
          \<and> patch_inner source_file patch_file patch_size True =
              Some (Inr (s',
                \<lparr>source_size = a, target_size = b, metadata = meta,
                 source_checksum =
                   from_bytes_little (take 4 (drop (offset (patch s)) patch_file)),
                 target_checksum =
                   from_bytes_little (take 4 (drop (offset (patch s) + 4) patch_file)),
                 patch_checksum =
                   from_bytes_little (take 4 (drop (offset (patch s) + 8) patch_file))\<rparr>))
          \<and> source s' = source s \<and> target s' = target s)"
  proof
    assume fail: "patch_inner source_file patch_file patch_size False
      = Some (Inl (ChecksumFailure m))"
    have "patch_body source_file patch_file patch_size \<noteq> Some (Inl (ChecksumFailure m))"
      using patch_body_error [of source_file patch_file patch_size "ChecksumFailure m"] by auto
    with fail obtain a b meta s where
      body: "patch_body source_file patch_file patch_size = Some (Inr (a, b, meta, s))"
      by (auto simp: patch_inner_def split: option.splits sum.splits)
    have buf: "buffer (patch s) = patch_file"
      using patch_body_cursor [OF body] by simp
    from verify_skip [of a b meta s] body buf show "\<exists>a b meta s s'.
          patch_body source_file patch_file patch_size = Some (Inr (a, b, meta, s))
          \<and> patch_inner source_file patch_file patch_size True =
              Some (Inr (s',
                \<lparr>source_size = a, target_size = b, metadata = meta,
                 source_checksum =
                   from_bytes_little (take 4 (drop (offset (patch s)) patch_file)),
                 target_checksum =
                   from_bytes_little (take 4 (drop (offset (patch s) + 4) patch_file)),
                 patch_checksum =
                   from_bytes_little (take 4 (drop (offset (patch s) + 8) patch_file))\<rparr>))
          \<and> source s' = source s \<and> target s' = target s"
      by (auto simp: patch_inner_def)
  qed
qed


lemma bad_target_body:
  "patch_body [] (hello_patch_with [0x00, 0x00, 0x00, 0x00] [0x9d, 0x4b, 0xa4, 0x29]) 25 =
     Some (Inr (0, 5, [],
       \<lparr>source = \<lparr>buffer = [], offset = 0, position = 0, checksum = 0\<rparr>,
        patch = \<lparr>buffer = hello_patch_with [0x00, 0x00, 0x00, 0x00] [0x9d, 0x4b, 0xa4, 0x29],
                 offset = 13, position = 13,
                 checksum = crc32 [0x42, 0x50, 0x53, 0x31, 0x80, 0x85, 0x80, 0x91,
                                   0x68, 0x65, 0x6c, 0x6c, 0x6f] 0\<rparr>,
        target = \<lparr>buffer = hello, offset = 5, position = 5, checksum = 0x3610a686\<rparr>,
        source_rel = 0, target_rel = 0\<rparr>))"
  using crc_hello by (simp add: run_simps hello_patch_with_def hello_def)

lemma bad_target_fails:
  "patch_inner [] (hello_patch_with [0x00, 0x00, 0x00, 0x00] [0x9d, 0x4b, 0xa4, 0x29]) 25 False
     = Some (Inl (ChecksumFailure ''Source checksum 3610a686 != 0''))"
  using crc_hello by (simp add: run_simps hello_patch_with_def hello_def)

theorem skip_checksum_completes_witness:
  "\<exists>s' r. patch_inner [] (hello_patch_with [0x00, 0x00, 0x00, 0x00] [0x9d, 0x4b, 0xa4, 0x29])
              25 True = Some (Inr (s', r))
     \<and> checksum (target s') = 0x3610a686 \<and> target_checksum r = 0
     \<and> source_checksum r = 0 \<and> patch_checksum r = 0x29a44b9d"
proof -
  let ?pf = "hello_patch_with [0x00, 0x00, 0x00, 0x00] [0x9d, 0x4b, 0xa4, 0x29]"
  from skip_checksum_completes [of "[]" ?pf 25 "''Source checksum 3610a686 != 0''"]
    bad_target_fails
  obtain a b meta s s' where body: "patch_body [] ?pf 25 = Some (Inr (a, b, meta, s))"
    and run: "patch_inner [] ?pf 25 True =
              Some (Inr (s',
                \<lparr>source_size = a, target_size = b, metadata = meta,
                 source_checksum = from_bytes_little (take 4 (drop (offset (patch s)) ?pf)),
                 target_checksum = from_bytes_little (take 4 (drop (offset (patch s) + 4) ?pf)),
                 patch_checksum = from_bytes_little (take 4 (drop (offset (patch s) + 8) ?pf))\<rparr>))"
    and frame: "source s' = source s" "target s' = target s"
    by blast
  from body bad_target_body have s: "offset (patch s) = 13" "checksum (target s) = 0x3610a686"
    by auto
  have "from_bytes_little (take 4 (drop 13 ?pf)) = 0"
    "from_bytes_little (take 4 (drop 17 ?pf)) = 0"
    "from_bytes_little (take 4 (drop 21 ?pf)) = 0x29a44b9d"
    by (simp_all add: hello_patch_with_def hello_def MAGIC_def)
  with run s frame show ?thesis by simp
qed

section \<open>What the patch checksum covers\<close>

lemma verify_cursor:
  assumes "verify a b meta skip s = Inr (s', r)" and "cursor_ok (patch s)"
  shows "position (patch s') = min (length (buffer (patch s))) (position (patch s) + 8)
    \<and> checksum (patch s') = crc32 (take (position (patch s')) (buffer (patch s))) 0
    \<and> patch_checksum r = from_bytes_little (take 4 (drop (position (patch s')) (buffer (patch s))))"
proof -
  let ?p1 = "snd (ReadState_read (patch s) 4)"
  let ?p2 = "snd (ReadState_read ?p1 4)"
  from assms(1) have s': "position (patch s') = position ?p2" "checksum (patch s') = checksum ?p2"
    and r: "patch_checksum r = from_bytes_little (take 4 (drop (offset ?p2) (buffer ?p2)))"
    by (auto simp: verify_def Let_def file_read_def split: prod.splits if_splits)
  from cursor_ok_read [OF assms(2), of 4] have ok1: "cursor_ok ?p1" "buffer ?p1 = buffer (patch s)"
    by simp_all
  from cursor_ok_read [OF ok1(1), of 4] ok1(2)
  have ok2: "cursor_ok ?p2" "buffer ?p2 = buffer (patch s)" by simp_all
  have pos: "position ?p2 = min (length (buffer (patch s))) (position (patch s) + 8)"
    using assms(2) by (simp add: ReadState_read_def file_read_def Let_def cursor_ok_def min_def, arith)
  from ok2 s' r pos show ?thesis by (simp add: cursor_ok_def)
qed

text \<open>
  Claim C8 (as amended). In every completed run the computed patch checksum is the CRC-32
  of exactly the patch bytes that went through the cursor, from the magic tag to the end
  of the two trailer fields read as source and target checksum: the first \<open>p\<close> bytes of
  the file, where \<open>p\<close> is 8 past the position at which \<open>patch_body\<close> ends (or the end of
  the file when fewer are left). The patch-checksum field is read after them, outside the
  cursor. When the instructions end exactly 12 bytes before the end of the file, these are
  all bytes of the file but the last four, and the field is the last four bytes.
\<close>

theorem patch_checksum_coverage:
  assumes "patch_inner source_file patch_file patch_size skip_checksum = Some (Inr (s, r))"
  shows "\<exists>a b meta s1.
      patch_body source_file patch_file patch_size = Some (Inr (a, b, meta, s1))
      \<and> position (patch s) = min (length patch_file) (position (patch s1) + 8)
      \<and> checksum (patch s) = crc32 (take (position (patch s)) patch_file) 0
      \<and> patch_checksum r = from_bytes_little (take 4 (drop (position (patch s)) patch_file))
      \<and> (position (patch s1) + 12 = length patch_file \<longrightarrow>
           checksum (patch s) = crc32 (take (length patch_file - 4) patch_file) 0
           \<and> patch_checksum r = from_bytes_little (drop (length patch_file - 4) patch_file))"
proof -
  from assms obtain a b meta s1 where
    body: "patch_body source_file patch_file patch_size = Some (Inr (a, b, meta, s1))"
    and v: "verify a b meta skip_checksum s1 = Inr (s, r)"
    by (auto simp: patch_inner_def split: option.splits sum.splits)
  from patch_body_cursor [OF body] have ok: "cursor_ok (patch s1)"
    and buf: "buffer (patch s1) = patch_file" by simp_all
  note c = verify_cursor [OF v ok, unfolded buf]
  have "position (patch s1) + 12 = length patch_file \<longrightarrow>
      checksum (patch s) = crc32 (take (length patch_file - 4) patch_file) 0
      \<and> patch_checksum r = from_bytes_little (drop (length patch_file - 4) patch_file)"
  proof
    assume e: "position (patch s1) + 12 = length patch_file"
    with c have p: "position (patch s) = length patch_file - 4" by simp
    with c show "checksum (patch s) = crc32 (take (length patch_file - 4) patch_file) 0
      \<and> patch_checksum r = from_bytes_little (drop (length patch_file - 4) patch_file)"
      using e by simp
  qed
  with body c show ?thesis by blast
qed

lemma hello_body:
  "patch_body [] hello_patch 25 =
     Some (Inr (0, 5, [],
       \<lparr>source = \<lparr>buffer = [], offset = 0, position = 0, checksum = 0\<rparr>,
        patch = \<lparr>buffer = hello_patch, offset = 13, position = 13,
                 checksum = crc32 [0x42, 0x50, 0x53, 0x31, 0x80, 0x85, 0x80, 0x91,
                                   0x68, 0x65, 0x6c, 0x6c, 0x6f] 0\<rparr>,
        target = \<lparr>buffer = hello, offset = 5, position = 5, checksum = 0x3610a686\<rparr>,
        source_rel = 0, target_rel = 0\<rparr>))"
  using crc_hello by (simp add: run_simps hello_patch_def hello_patch_with_def hello_def)

lemma hello_run:
  "patch_inner [] hello_patch 25 False =
     Some (Inr (\<lparr>source = \<lparr>buffer = [], offset = 0, position = 0, checksum = 0\<rparr>,
                 patch = \<lparr>buffer = hello_patch, offset = 25, position = 21,
                          checksum = 0x29a44b9d\<rparr>,
                 target = \<lparr>buffer = hello, offset = 5, position = 5, checksum = 0x3610a686\<rparr>,
                 source_rel = 0, target_rel = 0\<rparr>,
                \<lparr>source_size = 0, target_size = 5, metadata = [],
                 source_checksum = 0, target_checksum = 0x3610a686,
                 patch_checksum = 0x29a44b9d\<rparr>))"
  using crc_hello crc_hello_patch
  by (simp add: run_simps hello_patch_def hello_patch_with_def hello_def)

theorem patch_checksum_coverage_witness:
  "\<exists>s r. patch_inner [] hello_patch 25 False = Some (Inr (s, r))
     \<and> checksum (patch s) = crc32 (take (length hello_patch - 4) hello_patch) 0
     \<and> patch_checksum r = from_bytes_little (drop (length hello_patch - 4) hello_patch)"
proof -
  have len: "length hello_patch = 25"
    by (simp add: hello_patch_def hello_patch_with_def hello_def MAGIC_def)
  from patch_checksum_coverage [OF hello_run] hello_body len hello_run show ?thesis
    by auto
qed

text \<open>
  The claim as first stated fails on \<open>overshoot_patch\<close>: with verification on, the run
  completes, the computed patch checksum is the CRC-32 of the first 17 of the 20 bytes,
  which is not that of the first 16, and the field read as patch checksum is the last
  three bytes.
\<close>

theorem patch_checksum_coverage_counterexample:
  "patch_open [] overshoot_patch None False =
     Some (Inr (\<lparr>source = \<lparr>buffer = [], offset = 0, position = 0, checksum = 0\<rparr>,
                 patch = \<lparr>buffer = overshoot_patch, offset = 20, position = 17,
                          checksum = 0xc8e6d3\<rparr>,
                 target = \<lparr>buffer = [0xae], offset = 1, position = 1, checksum = 0xe36c6162\<rparr>,
                 source_rel = 0, target_rel = 0\<rparr>,
                \<lparr>source_size = 0, target_size = 1, metadata = [],
                 source_checksum = 0, target_checksum = 0xe36c6162,
                 patch_checksum = 0xc8e6d3\<rparr>))
   \<and> length overshoot_patch = 20
   \<and> crc32 (take 17 overshoot_patch) 0 = 0xc8e6d3
   \<and> crc32 (take (length overshoot_patch - 4) overshoot_patch) 0 = 0xc78ca3c5"
proof -
  have "crc32 [0x42, 0x50, 0x53, 0x31, 0x80, 0x81, 0x80, 0x81, 0xae,
          0x00, 0x00, 0x00, 0x00, 0x62, 0x61, 0x6c] 0 = 0xc78ca3c5"
    by (simp add: crc_simps)
  with crc_ae crc_overshoot_patch show ?thesis
    by (simp add: run_simps overshoot_patch_def)
qed

section \<open>Instructions return\<close>

text \<open>
  The copy loop is only ever called with a positive buffer size, so every instruction and
  the instruction loop return: a run that does not return is stuck in the drain loop.
\<close>

lemma instruction_returns: "instruction base s \<noteq> None"
proof (cases "decode_number (patch s)")
  case (Inl e)
  then show ?thesis by (simp add: instruction_def)
next
  case (Inr a)
  obtain data p where a: "a = (data, p)" by (cases a)
  have bc: "map_option Inr (buffered_copy src len BUFFER_SIZE t) \<noteq> (None :: (error + PatchState) option)"
    for src len t
    using buffered_copy_total [of BUFFER_SIZE src len t] by (auto simp: BUFFER_SIZE_def)
  have sc: "source_copy len t \<noteq> None" for len t
    using bc by (auto simp: source_copy_def split: sum.splits prod.splits)
  have tc: "target_copy base len t \<noteq> None" for len t
  proof (cases "decode_number (patch t)")
    case (Inl e)
    then show ?thesis by (simp add: target_copy_def)
  next
    case (Inr b)
    obtain d q where b: "b = (d, q)" by (cases b)
    show ?thesis
    proof (cases "seek_cur (target_rel t) (signed_offset d)")
      case (Inl e)
      with Inr b show ?thesis by (simp add: target_copy_def)
    next
      case off: (Inr off)
      let ?t1 = "t\<lparr>patch := q, target_rel := off\<rparr>"
      let ?bs = "min (int (position (target ?t1)) - (int (target_rel ?t1) - int base)) BUFFER_SIZE"
      show ?thesis
      proof (cases "int (position (target ?t1)) - 8 > int (target_rel ?t1) - int base")
        case True
        then have "0 < ?bs" by (simp add: BUFFER_SIZE_def)
        from buffered_copy_total [OF this, of TargetRel len ?t1] True Inr b off show ?thesis
          by (auto simp: target_copy_def Let_def)
      next
        case False
        with Inr b off show ?thesis by (simp add: target_copy_def Let_def)
      qed
    qed
  qed
  from Inr a bc sc tc show ?thesis by (simp add: instruction_def Let_def)
qed

lemma instruction_loop_returns: "instruction_loop base patch_end s \<noteq> None"
proof (induction base patch_end s rule: instruction_loop.induct)
  case (1 base patch_end s)
  show ?case
  proof (cases "int (position (patch s)) < patch_end")
    case False
    then show ?thesis by (subst instruction_loop.simps) simp
  next
    case True
    from instruction_returns [of base s] obtain a where a: "instruction base s = Some a" by blast
    show ?thesis
    proof (cases a)
      case (Inl e)
      with True a show ?thesis by (subst instruction_loop.simps) simp
    next
      case (Inr s')
      from "1.IH" [OF True a Inr] True a Inr show ?thesis
        by (subst instruction_loop.simps) simp
    qed
  qed
qed

text \<open>
  Throughout a run the position of the target cursor is the length of the target file.
\<close>

lemma stream_read_target: "stream_read src n s = (data, s') \<Longrightarrow> target s' = target s"
  by (cases src) (auto simp: Let_def split: prod.splits)

lemma buffered_copy_written:
  assumes "buffered_copy src len bs s = Some s'"
    and "position (target s) = length (buffer (target s))"
  shows "position (target s') = length (buffer (target s'))"
  using assms
proof (induction rule: buffered_copy_induct)
  case (stop len s)
  then show ?case by simp
next
  case (chunk len s buf s1 s')
  from stream_read_target [OF chunk.hyps(2)] chunk.prems
  have "position (target (s1\<lparr>target := ReadState_write (target s1) buf\<rparr>))
      = length (buffer (target (s1\<lparr>target := ReadState_write (target s1) buf\<rparr>)))"
    by (simp add: ReadState_write_def)
  then show ?case by (rule chunk.IH)
qed

lemma copy_bytewise_written:
  "position (target s) = length (buffer (target s)) \<Longrightarrow>
   position (target (copy_bytewise n s)) = length (buffer (target (copy_bytewise n s)))"
proof (induction n arbitrary: s)
  case 0
  then show ?case by simp
next
  case (Suc n)
  obtain data s1 where rd: "stream_read TargetRel 1 s = (data, s1)"
    by (cases "stream_read TargetRel 1 s")
  from stream_read_target [OF rd] Suc.prems
  have "position (target (s1\<lparr>target := ReadState_write (target s1) data\<rparr>))
      = length (buffer (target (s1\<lparr>target := ReadState_write (target s1) data\<rparr>)))"
    by (simp add: ReadState_write_def)
  from Suc.IH [OF this] rd show ?case by (simp del: stream_read.simps)
qed

lemma source_copy_written:
  assumes "source_copy len s = Some (Inr s')"
    and "position (target s) = length (buffer (target s))"
  shows "position (target s') = length (buffer (target s'))"
proof -
  from assms(1) obtain p off where
    run: "buffered_copy SourceRel len BUFFER_SIZE (s\<lparr>patch := p, source_rel := off\<rparr>) = Some s'"
    by (auto simp: source_copy_def split: sum.splits prod.splits)
  from buffered_copy_written [OF run] assms(2) show ?thesis by simp
qed

lemma target_copy_written:
  assumes "target_copy base len s = Some (Inr s')"
    and "position (target s) = length (buffer (target s))"
  shows "position (target s') = length (buffer (target s'))"
proof -
  from assms(1) obtain p off where
    run: "(\<exists>bs. buffered_copy TargetRel len bs (s\<lparr>patch := p, target_rel := off\<rparr>) = Some s')
      \<or> s' = copy_bytewise (nat len) (s\<lparr>patch := p, target_rel := off\<rparr>)"
    by (auto simp: target_copy_def Let_def split: sum.splits prod.splits if_splits)
  then show ?thesis
  proof
    assume "\<exists>bs. buffered_copy TargetRel len bs (s\<lparr>patch := p, target_rel := off\<rparr>) = Some s'"
    then obtain bs where
      "buffered_copy TargetRel len bs (s\<lparr>patch := p, target_rel := off\<rparr>) = Some s'" ..
    from buffered_copy_written [OF this] assms(2) show ?thesis by simp
  next
    assume "s' = copy_bytewise (nat len) (s\<lparr>patch := p, target_rel := off\<rparr>)"
    with copy_bytewise_written [of "s\<lparr>patch := p, target_rel := off\<rparr>" "nat len"] assms(2)
    show ?thesis by simp
  qed
qed

lemma instruction_written:
  assumes "instruction base s = Some (Inr s')"
    and "position (target s) = length (buffer (target s))"
  shows "position (target s') = length (buffer (target s'))"
proof -
  from assms(1) obtain data p where dec: "decode_number (patch s) = Inr (data, p)"
    by (auto simp: instruction_def split: sum.splits)
  let ?s1 = "s\<lparr>patch := p\<rparr>"
  have w1: "position (target ?s1) = length (buffer (target ?s1))" using assms(2) by simp
  from assms(1) dec have "(\<exists>src len bs. buffered_copy src len bs ?s1 = Some s')
      \<or> (\<exists>len. source_copy len ?s1 = Some (Inr s'))
      \<or> (\<exists>len. target_copy base len ?s1 = Some (Inr s'))"
    by (auto simp: instruction_def Let_def split: if_splits)
  with w1 show ?thesis
    by (auto dest: buffered_copy_written source_copy_written target_copy_written)
qed

lemma instruction_loop_written:
  "instruction_loop base patch_end s = Some (Inr s') \<Longrightarrow>
   position (target s) = length (buffer (target s)) \<Longrightarrow>
   position (target s') = length (buffer (target s'))"
proof (induction base patch_end s rule: instruction_loop.induct)
  case (1 base patch_end s)
  show ?case
  proof (cases "int (position (patch s)) < patch_end")
    case False
    with "1.prems" show ?thesis by (subst (asm) instruction_loop.simps) auto
  next
    case True
    with "1.prems"(1) obtain s1 where step: "instruction base s = Some (Inr s1)"
      and rest: "instruction_loop base patch_end s1 = Some (Inr s')"
      by (subst (asm) instruction_loop.simps) (auto split: option.splits sum.splits)
    from "1.IH" [OF True step refl rest instruction_written [OF step "1.prems"(2)]]
    show ?thesis .
  qed
qed

lemma read_header_written:
  "read_header source_file patch_file = Inr (a, b, meta, s) \<Longrightarrow>
   position (target s) = length (buffer (target s)) \<and> target_rel s = 0 \<and> source_rel s = 0"
  by (auto simp: read_header_def Let_def new_ReadState_def
      split: prod.splits if_splits sum.splits)

section \<open>Target copies that overlap their own output\<close>

lemma repeat_run_length: "length (repeat_run t off n) = length t + n"
  by (induction n arbitrary: t off) simp_all

lemma repeat_run_prefix: "take (length t) (repeat_run t off n) = t"
proof (induction n arbitrary: t off)
  case 0
  show ?case by simp
next
  case (Suc n)
  have "take (length t) (repeat_run (t @ [t ! off]) (Suc off) n)
      = take (length t) (take (length (t @ [t ! off])) (repeat_run (t @ [t ! off]) (Suc off) n))"
    by simp
  also have "\<dots> = take (length t) (t @ [t ! off])"
    by (simp only: Suc.IH)
  finally show ?case by simp
qed

lemma repeat_run_add:
  "repeat_run t off (m + n) = repeat_run (repeat_run t off m) (off + m) n"
  by (induction m arbitrary: t off) simp_all

lemma repeat_run_chunk:
  "off + m \<le> length t \<Longrightarrow> repeat_run t off m = t @ take m (drop off t)"
proof (induction m arbitrary: t off)
  case 0
  show ?case by simp
next
  case (Suc m)
  then have lt: "off < length t" by simp
  have "repeat_run t off (Suc m) = (t @ [t ! off]) @ take m (drop (Suc off) (t @ [t ! off]))"
    using Suc.prems by (simp add: Suc.IH)
  also have "take m (drop (Suc off) (t @ [t ! off])) = take m (drop (Suc off) t)"
    using Suc.prems by simp
  also have "(t @ [t ! off]) @ take m (drop (Suc off) t) = t @ take (Suc m) (drop off t)"
    using lt by (simp add: Cons_nth_drop_Suc [symmetric])
  finally show ?case .
qed

text \<open>Each byte of the run is the byte the read offset points at when it is written.\<close>

lemma repeat_run_nth:
  assumes "off < length t" and "i < n"
  shows "repeat_run t off n ! (length t + i) = repeat_run t off n ! (off + i)"
  using assms
proof (induction n arbitrary: t off i)
  case 0
  then show ?case by simp
next
  case (Suc n)
  let ?t = "t @ [t ! off]"
  show ?case
  proof (cases i)
    case 0
    have "repeat_run ?t (Suc off) n ! length t = take (length ?t) (repeat_run ?t (Suc off) n) ! length t"
      by simp
    also have "\<dots> = ?t ! length t" by (simp only: repeat_run_prefix)
    also have "\<dots> = t ! off" by simp
    also have "\<dots> = ?t ! off" using Suc.prems by (simp add: nth_append)
    also have "\<dots> = take (length ?t) (repeat_run ?t (Suc off) n) ! off"
      by (simp only: repeat_run_prefix)
    also have "\<dots> = repeat_run ?t (Suc off) n ! off" using Suc.prems by simp
    finally show ?thesis using 0 by simp
  next
    case (Suc j)
    with Suc.prems have "j < n" "Suc off < length ?t" by simp_all
    from Suc.IH [OF this(2) this(1)] Suc show ?thesis by simp
  qed
qed

lemma take1_drop: "off < length t \<Longrightarrow> take (Suc 0) (drop off t) = [t ! off]"
  by (simp add: take_Suc_conv_app_nth [where i = 0, simplified] hd_drop_conv_nth take_Suc)

lemma copy_bytewise_run:
  assumes "target_rel s < length (buffer (target s))"
  shows "buffer (target (copy_bytewise n s)) = repeat_run (buffer (target s)) (target_rel s) n
    \<and> target_rel (copy_bytewise n s) = target_rel s + n
    \<and> position (target (copy_bytewise n s)) = position (target s) + n"
  using assms
proof (induction n arbitrary: s)
  case 0
  show ?case by simp
next
  case (Suc n)
  let ?b = "buffer (target s) ! target_rel s"
  let ?s1 = "s\<lparr>target_rel := target_rel s + 1\<rparr>"
  let ?s2 = "?s1\<lparr>target := ReadState_write (target ?s1) [?b]\<rparr>"
  have rd: "stream_read TargetRel 1 s = ([?b], ?s1)"
    using Suc.prems by (simp add: file_read_def Let_def take1_drop)
  have step: "copy_bytewise (Suc n) s = copy_bytewise n ?s2"
    by (simp add: rd del: stream_read.simps)
  have "target_rel ?s2 < length (buffer (target ?s2))"
    using Suc.prems by (simp add: ReadState_write_def)
  from Suc.IH [OF this] show ?case
    unfolding step by (simp add: ReadState_write_def)
qed

lemma buffered_copy_run:
  assumes "0 < bs" and "target_rel s + nat bs \<le> length (buffer (target s))"
  shows "\<exists>s'. buffered_copy TargetRel len bs s = Some s'
    \<and> buffer (target s') = repeat_run (buffer (target s)) (target_rel s) (nat len)
    \<and> target_rel s' = target_rel s + nat len
    \<and> position (target s') = position (target s) + nat len
    \<and> patch s' = patch s"
  using assms(2)
proof (induction "nat len" arbitrary: len s rule: less_induct)
  case less
  show ?case
  proof (cases "0 < len")
    case False
    then show ?thesis by (subst buffered_copy.simps) simp
  next
    case True
    let ?m = "nat (min len bs)"
    let ?t = "buffer (target s)" and ?off = "target_rel s"
    let ?buf = "take ?m (drop ?off ?t)"
    let ?s1 = "s\<lparr>target_rel := ?off + length ?buf\<rparr>"
    let ?s2 = "?s1\<lparr>target := ReadState_write (target ?s1) ?buf\<rparr>"
    have m: "?off + ?m \<le> length ?t" using less.prems assms(1) by simp
    then have lb: "length ?buf = ?m" by simp
    have rd: "stream_read TargetRel (min len bs) s = (?buf, ?s1)"
      using True assms(1) by (simp add: file_read_def Let_def)
    have t2: "buffer (target ?s2) = repeat_run ?t ?off ?m"
      using repeat_run_chunk [OF m] by (simp add: ReadState_write_def)
    have "nat (len - bs) < nat len" using True assms(1) by simp
    moreover have "target_rel ?s2 + nat bs \<le> length (buffer (target ?s2))"
      using less.prems lb by (simp add: ReadState_write_def)
    ultimately obtain s' where run: "buffered_copy TargetRel (len - bs) bs ?s2 = Some s'"
      and b: "buffer (target s') = repeat_run (buffer (target ?s2)) (target_rel ?s2) (nat (len - bs))"
      and r: "target_rel s' = target_rel ?s2 + nat (len - bs)"
      and p: "position (target s') = position (target ?s2) + nat (len - bs)"
      and f: "patch s' = patch ?s2"
      using less.hyps [of "len - bs" ?s2] by blast
    have split: "nat len = ?m + nat (len - bs)" using True assms(1) by (simp add: min_def, arith)
    have "buffered_copy TargetRel len bs s = Some s'"
      using True rd run by (subst buffered_copy.simps) (simp add: Let_def)
    moreover have "buffer (target s') = repeat_run ?t ?off (nat len)"
      unfolding b t2 split using lb by (simp add: repeat_run_add)
    moreover have "target_rel s' = ?off + nat len"
      unfolding r split using lb by simp
    moreover have "position (target s') = position (target s) + nat len"
      unfolding p split using lb by (simp add: ReadState_write_def)
    moreover have "patch s' = patch s" using f by simp
    ultimately show ?thesis by blast
  qed
qed

text \<open>
  The branch \<^verbatim>\<open>command == 3\<close> alone, for any length: it returns, on either path, the target
  followed by the run.
\<close>

lemma target_copy_branch:
  assumes dec: "decode_number (patch s) = Inr (data, p)"
    and seek: "seek_cur (target_rel s) (signed_offset data) = Inr off"
    and written: "position (target s) = length (buffer (target s))"
    and inside: "off < length (buffer (target s))"
  shows "(\<exists>s'. target_copy 0 len s = Some (Inr s')
            \<and> buffer (target s') = repeat_run (buffer (target s)) off (nat len)
            \<and> position (target s') = length (buffer (target s'))
            \<and> target_rel s' = off + nat len \<and> patch s' = p)
     \<and> (8 < int (length (buffer (target s))) - int off \<longrightarrow>
          target_copy 0 len s = map_option Inr
            (buffered_copy TargetRel len
               (min (int (length (buffer (target s))) - int off) BUFFER_SIZE)
               (s\<lparr>patch := p, target_rel := off\<rparr>))
          \<and> (\<exists>s'. buffered_copy TargetRel len
                    (min (int (length (buffer (target s))) - int off) BUFFER_SIZE)
                    (s\<lparr>patch := p, target_rel := off\<rparr>) = Some s'
                \<and> buffer (target s') = repeat_run (buffer (target s)) off (nat len)))
     \<and> (\<not> 8 < int (length (buffer (target s))) - int off \<longrightarrow>
          target_copy 0 len s =
            Some (Inr (copy_bytewise (nat len) (s\<lparr>patch := p, target_rel := off\<rparr>))))
     \<and> buffer (target (copy_bytewise (nat len) (s\<lparr>patch := p, target_rel := off\<rparr>)))
          = repeat_run (buffer (target s)) off (nat len)
     \<and> length (repeat_run (buffer (target s)) off (nat len))
          = length (buffer (target s)) + nat len
     \<and> take (length (buffer (target s))) (repeat_run (buffer (target s)) off (nat len))
          = buffer (target s)
     \<and> (\<forall>i < nat len.
           repeat_run (buffer (target s)) off (nat len) ! (length (buffer (target s)) + i)
           = repeat_run (buffer (target s)) off (nat len) ! (off + i))"
proof -
  let ?t = "buffer (target s)"
  let ?s1 = "s\<lparr>patch := p, target_rel := off\<rparr>"
  let ?d = "int (length ?t) - int off"
  let ?bs = "min ?d BUFFER_SIZE"
  have inside1: "target_rel ?s1 < length (buffer (target ?s1))" using inside by simp
  note bw = copy_bytewise_run [OF inside1, of "nat len"]
  have bytewise: "buffer (target (copy_bytewise (nat len) ?s1)) = repeat_run ?t off (nat len)"
    using bw by simp
  have sel_bulk: "target_copy 0 len s = map_option Inr (buffered_copy TargetRel len ?bs ?s1)"
    if "8 < ?d"
    using that dec seek written by (simp add: target_copy_def Let_def)
  have sel_bytewise: "target_copy 0 len s = Some (Inr (copy_bytewise (nat len) ?s1))"
    if "\<not> 8 < ?d"
    using that dec seek written by (simp add: target_copy_def Let_def)
  have bulk: "\<exists>s'. buffered_copy TargetRel len ?bs ?s1 = Some s'
      \<and> buffer (target s') = repeat_run ?t off (nat len)
      \<and> target_rel s' = off + nat len
      \<and> position (target s') = position (target s) + nat len
      \<and> patch s' = p" if "8 < ?d"
  proof -
    from that have pos: "0 < ?bs" by (simp add: BUFFER_SIZE_def)
    have "target_rel ?s1 + nat ?bs \<le> length (buffer (target ?s1))"
      using inside by (simp add: min_def BUFFER_SIZE_def, arith)
    from buffered_copy_run [OF pos this, of len] show ?thesis by simp
  qed
  have run: "\<exists>s'. target_copy 0 len s = Some (Inr s')
      \<and> buffer (target s') = repeat_run ?t off (nat len)
      \<and> position (target s') = length (buffer (target s'))
      \<and> target_rel s' = off + nat len \<and> patch s' = p"
  proof (cases "8 < ?d")
    case True
    from bulk [OF True] obtain s' where "buffered_copy TargetRel len ?bs ?s1 = Some s'"
      and "buffer (target s') = repeat_run ?t off (nat len)"
      and "target_rel s' = off + nat len"
      and "position (target s') = position (target s) + nat len"
      and "patch s' = p" by blast
    with sel_bulk [OF True] written show ?thesis by (simp add: repeat_run_length)
  next
    case False
    from sel_bytewise [OF False] bw written show ?thesis
      by (simp add: repeat_run_length copy_bytewise_patch_frame)
  qed
  from run sel_bulk bulk sel_bytewise bytewise repeat_run_nth [OF inside, of _ "nat len"]
  show ?thesis
    by (simp add: repeat_run_length repeat_run_prefix) blast
qed

lemma run_ab: "repeat_run [0x61, 0x62] 0 5 = [0x61, 0x62, 0x61, 0x62, 0x61, 0x62, 0x61]"
  by (simp add: eval_nat_numeral)

subsection \<open>The byte-by-byte loop in closed form\<close>

lemma write_write:
  "ReadState_write (ReadState_write r [b]) xs = ReadState_write r (b # xs)"
  by (simp add: ReadState_write_def crc32_masked crc32_append)

lemma buffer_write: "buffer (ReadState_write r xs) = buffer r @ xs"
  by (simp add: ReadState_write_def)

lemma repeat_run_new_bytes:
  assumes "off < length t"
  shows "drop (length t) (repeat_run t off (Suc m))
    = t ! off # drop (Suc (length t)) (repeat_run (t @ [t ! off]) (Suc off) m)"
proof -
  let ?r = "repeat_run (t @ [t ! off]) (Suc off) m"
  have len: "length t < length ?r" by (simp add: repeat_run_length)
  have "take (length (t @ [t ! off])) ?r = t @ [t ! off]" by (rule repeat_run_prefix)
  then have "take (Suc (length t)) ?r ! length t = (t @ [t ! off]) ! length t" by simp
  then have "?r ! length t = t ! off" by simp
  with Cons_nth_drop_Suc [OF len] show ?thesis by simp
qed

lemma copy_bytewise_state:
  assumes "target_rel s < length (buffer (target s))" and "0 < n"
  shows "copy_bytewise n s =
     s\<lparr>target_rel := target_rel s + n,
       target := ReadState_write (target s)
         (drop (length (buffer (target s)))
            (repeat_run (buffer (target s)) (target_rel s) n))\<rparr>"
  using assms
proof (induction n arbitrary: s)
  case 0
  then show ?case by simp
next
  case (Suc m)
  let ?t = "buffer (target s)" and ?off = "target_rel s"
  let ?b = "?t ! ?off"
  let ?s2 = "s\<lparr>target_rel := ?off + 1, target := ReadState_write (target s) [?b]\<rparr>"
  have rd: "stream_read TargetRel 1 s = ([?b], s\<lparr>target_rel := ?off + 1\<rparr>)"
    using Suc.prems by (simp add: file_read_def Let_def take1_drop)
  have step: "copy_bytewise (Suc m) s = copy_bytewise m ?s2"
    by (simp add: rd del: stream_read.simps)
  have t2: "buffer (target ?s2) = ?t @ [?b]" by (simp add: ReadState_write_def)
  show ?case
  proof (cases m)
    case 0
    have "drop (length ?t) (repeat_run ?t ?off (Suc 0)) = [?b]" by simp
    with 0 step show ?thesis by simp
  next
    case (Suc k)
    have "target_rel ?s2 < length (buffer (target ?s2))"
      using Suc.prems by (simp add: ReadState_write_def)
    moreover have "0 < m" using Suc by simp
    ultimately have "copy_bytewise m ?s2 =
        ?s2\<lparr>target_rel := target_rel ?s2 + m,
            target := ReadState_write (target ?s2)
              (drop (length (buffer (target ?s2)))
                 (repeat_run (buffer (target ?s2)) (target_rel ?s2) m))\<rparr>"
      by (rule Suc.IH)
    also have "\<dots> = s\<lparr>target_rel := ?off + Suc m,
       target := ReadState_write (target s)
         (?b # drop (Suc (length ?t)) (repeat_run (?t @ [?b]) (Suc ?off) m))\<rparr>"
      by (simp add: write_write buffer_write)
    also have "?b # drop (Suc (length ?t)) (repeat_run (?t @ [?b]) (Suc ?off) m)
        = drop (length ?t) (repeat_run ?t ?off (Suc m))"
      using repeat_run_new_bytes [of ?off ?t m] Suc.prems(1) by simp
    finally show ?thesis unfolding step .
  qed
qed

subsection \<open>The target only grows\<close>

lemma loop_turns_Suc:
  assumes "loop_turns (Suc k) base patch_end s0 = Some s"
  obtains s1 where "int (position (patch s0)) < patch_end"
    and "instruction base s0 = Some (Inr s1)" and "loop_turns k base patch_end s1 = Some s"
  using assms by (auto split: if_splits option.splits sum.splits)

lemma loop_turns_loop:
  "loop_turns k base patch_end s0 = Some s \<Longrightarrow>
   instruction_loop base patch_end s0 = instruction_loop base patch_end s"
proof (induction k arbitrary: s0)
  case 0
  then show ?case by simp
next
  case (Suc k)
  from Suc.prems obtain s1 where c: "int (position (patch s0)) < patch_end"
    and st: "instruction base s0 = Some (Inr s1)"
    and r: "loop_turns k base patch_end s1 = Some s"
    by (rule loop_turns_Suc)
  have "instruction_loop base patch_end s0 = instruction_loop base patch_end s1"
    using c st by (subst instruction_loop.simps) simp
  with Suc.IH [OF r] show ?case by simp
qed

lemma loop_turns_written:
  "loop_turns k base patch_end s0 = Some s \<Longrightarrow>
   position (target s0) = length (buffer (target s0)) \<Longrightarrow>
   position (target s) = length (buffer (target s))"
proof (induction k arbitrary: s0)
  case 0
  then show ?case by simp
next
  case (Suc k)
  from Suc.prems(1) obtain s1 where st: "instruction base s0 = Some (Inr s1)"
    and r: "loop_turns k base patch_end s1 = Some s"
    by (rule loop_turns_Suc)
  from Suc.IH [OF r instruction_written [OF st Suc.prems(2)]] show ?case .
qed

lemma buffered_copy_grows:
  assumes "buffered_copy src len bs s = Some s'"
  shows "\<exists>rest. buffer (target s') = buffer (target s) @ rest"
  using assms
proof (induction rule: buffered_copy_induct)
  case (stop len s)
  show ?case by simp
next
  case (chunk len s buf s1 s')
  with stream_read_target [OF chunk(2)] show ?case by (auto simp: ReadState_write_def)
qed

lemma copy_bytewise_grows:
  "\<exists>rest. buffer (target (copy_bytewise n s)) = buffer (target s) @ rest"
proof (induction n arbitrary: s)
  case 0
  show ?case by simp
next
  case (Suc n)
  obtain data s1 where rd: "stream_read TargetRel 1 s = (data, s1)"
    by (cases "stream_read TargetRel 1 s")
  from Suc.IH [of "s1\<lparr>target := ReadState_write (target s1) data\<rparr>"]
    stream_read_target [OF rd] rd
  show ?case by (auto simp: ReadState_write_def simp del: stream_read.simps)
qed

lemma source_copy_grows:
  assumes "source_copy len s = Some (Inr s')"
  shows "\<exists>rest. buffer (target s') = buffer (target s) @ rest"
proof -
  from assms obtain p off where
    run: "buffered_copy SourceRel len BUFFER_SIZE (s\<lparr>patch := p, source_rel := off\<rparr>) = Some s'"
    by (auto simp: source_copy_def split: sum.splits prod.splits)
  from buffered_copy_grows [OF run] show ?thesis by simp
qed

lemma target_copy_grows:
  assumes "target_copy base len s = Some (Inr s')"
  shows "\<exists>rest. buffer (target s') = buffer (target s) @ rest"
proof -
  from assms obtain p off where
    run: "(\<exists>bs. buffered_copy TargetRel len bs (s\<lparr>patch := p, target_rel := off\<rparr>) = Some s')
      \<or> s' = copy_bytewise (nat len) (s\<lparr>patch := p, target_rel := off\<rparr>)"
    by (auto simp: target_copy_def Let_def split: sum.splits prod.splits if_splits)
  then show ?thesis
  proof
    assume "\<exists>bs. buffered_copy TargetRel len bs (s\<lparr>patch := p, target_rel := off\<rparr>) = Some s'"
    then obtain bs where
      "buffered_copy TargetRel len bs (s\<lparr>patch := p, target_rel := off\<rparr>) = Some s'" ..
    from buffered_copy_grows [OF this] show ?thesis by simp
  next
    assume "s' = copy_bytewise (nat len) (s\<lparr>patch := p, target_rel := off\<rparr>)"
    with copy_bytewise_grows [of "nat len" "s\<lparr>patch := p, target_rel := off\<rparr>"]
    show ?thesis by simp
  qed
qed

lemma instruction_grows:
  assumes "instruction base s = Some (Inr s')"
  shows "\<exists>rest. buffer (target s') = buffer (target s) @ rest"
proof -
  from assms obtain data p where dec: "decode_number (patch s) = Inr (data, p)"
    by (auto simp: instruction_def split: sum.splits)
  let ?s1 = "s\<lparr>patch := p\<rparr>"
  from assms dec have "(\<exists>src len bs. buffered_copy src len bs ?s1 = Some s')
      \<or> (\<exists>len. source_copy len ?s1 = Some (Inr s'))
      \<or> (\<exists>len. target_copy base len ?s1 = Some (Inr s'))"
    by (auto simp: instruction_def Let_def split: if_splits)
  then show ?thesis
    by (auto dest: buffered_copy_grows source_copy_grows target_copy_grows)
qed

lemma instruction_loop_grows:
  "instruction_loop base patch_end s = Some (Inr s') \<Longrightarrow>
   \<exists>rest. buffer (target s') = buffer (target s) @ rest"
proof (induction base patch_end s rule: instruction_loop.induct)
  case (1 base patch_end s)
  show ?case
  proof (cases "int (position (patch s)) < patch_end")
    case False
    with "1.prems" show ?thesis by (subst (asm) instruction_loop.simps) auto
  next
    case True
    with "1.prems"(1) obtain s1 where step: "instruction base s = Some (Inr s1)"
      and rest: "instruction_loop base patch_end s1 = Some (Inr s')"
      by (subst (asm) instruction_loop.simps) (auto split: option.splits sum.splits)
    from "1.IH" [OF True step refl rest] instruction_grows [OF step]
    show ?thesis by auto
  qed
qed

lemma pad_chunks_grows: "\<exists>rest. buffer (pad_chunks remaining r) = buffer r @ rest"
proof (induction remaining r rule: pad_chunks.induct)
  case (1 remaining r)
  show ?case
  proof (cases "remaining > 0")
    case True
    from "1.IH" [OF True] show ?thesis
      by (subst pad_chunks.simps) (auto simp: True ReadState_write_def)
  next
    case False
    then show ?thesis by (subst pad_chunks.simps) simp
  qed
qed

lemma pad_target_grows: "\<exists>rest. buffer (target (pad_target tgt_size s)) = buffer (target s) @ rest"
proof (induction tgt_size s rule: pad_target.induct)
  case (1 tgt_size s)
  show ?case
  proof (cases "int (position (target s)) < tgt_size")
    case True
    from "1.IH" [OF True] pad_chunks_grows [of "tgt_size - int (position (target s))" "target s"]
    show ?thesis by (subst pad_target.simps) (auto simp: True)
  next
    case False
    then show ?thesis by (subst pad_target.simps) simp
  qed
qed

lemma verify_target: "verify src_size tgt_size meta skip s = Inr (s', r) \<Longrightarrow> target s' = target s"
  by (auto simp: verify_def Let_def split: prod.splits if_splits)

lemma patch_open_grows:
  assumes hdr: "read_header source_file patch_file = Inr (src_size, tgt_size, meta, s0)"
    and size: "patch_end = (case patch_size of None \<Rightarrow> int (length patch_file) | Some n \<Rightarrow> n) - 12"
    and on: "instruction_loop 0 patch_end s0 = instruction_loop 0 patch_end s"
    and fin: "patch_open source_file patch_file patch_size skip_checksum = Some (Inr (s_end, r))"
  shows "\<exists>rest. buffer (target s_end) = buffer (target s) @ rest"
proof -
  from read_header_written [OF hdr] have base: "target_rel s0 = 0" by simp
  from fin hdr size base on obtain s2 s3 where
    loop: "instruction_loop 0 patch_end s = Some (Inr s2)"
    and drain: "drain_source src_size s2 = Some s3"
    and ver: "verify src_size tgt_size meta skip_checksum (pad_target tgt_size s3) = Inr (s_end, r)"
    by (auto simp: patch_open_def patch_inner_def patch_body_def Let_def
        split: option.splits sum.splits)
  from instruction_loop_grows [OF loop] obtain r1 where
    "buffer (target s2) = buffer (target s) @ r1" ..
  moreover from drain_source_patch [OF drain] have "target s3 = target s2" by simp
  moreover from pad_target_grows [of tgt_size s3] obtain r2 where
    "buffer (target (pad_target tgt_size s3)) = buffer (target s3) @ r2" ..
  moreover note verify_target [OF ver]
  ultimately show ?thesis by simp
qed

subsection \<open>Two patches with a repeating run\<close>

lemma crc_abababa: "crc32 [0x61, 0x62, 0x61, 0x62, 0x61, 0x62, 0x61] 0 = 0xe487aef7"
  by (simp add: crc_simps)

lemma crc_rle_patch:
  "crc32 [0x42, 0x50, 0x53, 0x31, 0x80, 0x87, 0x80, 0x85, 0x61, 0x62, 0x93, 0x80,
          0x00, 0x00, 0x00, 0x00, 0xf7, 0xae, 0x87, 0xe4] 0 = 0x356c2afa"
  by (simp add: crc_simps)

lemma crc_bulk_target:
  "crc32 [0x30, 0x31, 0x32, 0x33, 0x34, 0x35, 0x36, 0x37, 0x38, 0x39,
          0x31, 0x32, 0x33, 0x34, 0x35, 0x36, 0x37, 0x38, 0x39, 0x31, 0x32, 0x33] 0
     = 0x4f87f4ea"
  by (simp add: crc_simps)

lemma crc_bulk_patch:
  "crc32 [0x42, 0x50, 0x53, 0x31, 0x80, 0x96, 0x80, 0xa5,
          0x30, 0x31, 0x32, 0x33, 0x34, 0x35, 0x36, 0x37, 0x38, 0x39, 0xaf, 0x82,
          0x00, 0x00, 0x00, 0x00, 0xea, 0xf4, 0x87, 0x4f] 0 = 0x31f270c1"
  by (simp add: crc_simps)

lemma rle_run:
  "patch_open [] rle_patch None False =
     Some (Inr (\<lparr>source = \<lparr>buffer = [], offset = 0, position = 0, checksum = 0\<rparr>,
                 patch = \<lparr>buffer = rle_patch, offset = 24, position = 20,
                          checksum = 0x356c2afa\<rparr>,
                 target = \<lparr>buffer = [0x61, 0x62, 0x61, 0x62, 0x61, 0x62, 0x61],
                           offset = 7, position = 7, checksum = 0xe487aef7\<rparr>,
                 source_rel = 0, target_rel = 5\<rparr>,
                \<lparr>source_size = 0, target_size = 7, metadata = [],
                 source_checksum = 0, target_checksum = 0xe487aef7,
                 patch_checksum = 0x356c2afa\<rparr>))"
  using crc_abababa crc_rle_patch
  by (simp add: run_simps rle_patch_def copy_bytewise_state run_ab)

lemma bulk_run:
  "patch_open [] bulk_patch None False =
     Some (Inr (\<lparr>source = \<lparr>buffer = [], offset = 0, position = 0, checksum = 0\<rparr>,
                 patch = \<lparr>buffer = bulk_patch, offset = 32, position = 28,
                          checksum = 0x31f270c1\<rparr>,
                 target = \<lparr>buffer = digits @ [0x31, 0x32, 0x33, 0x34, 0x35, 0x36, 0x37,
                                              0x38, 0x39, 0x31, 0x32, 0x33],
                           offset = 22, position = 22, checksum = 0x4f87f4ea\<rparr>,
                 source_rel = 0, target_rel = 13\<rparr>,
                \<lparr>source_size = 0, target_size = 22, metadata = [],
                 source_checksum = 0, target_checksum = 0x4f87f4ea,
                 patch_checksum = 0x31f270c1\<rparr>))"
  using crc_bulk_target crc_bulk_patch
  by (simp add: run_simps bulk_patch_def digits_def)

lemma rle_steps:
  "read_header [] rle_patch = Inr (0, 7, [], mid_run rle_patch 7 [] 0)"
  "instruction 0 (mid_run rle_patch 7 [] 0) = Some (Inr (mid_run rle_patch 10 [0x61, 0x62] 0))"
  "decode_number (patch (mid_run rle_patch 10 [0x61, 0x62] 0))
     = Inr (19, snd (ReadState_read (new_ReadState rle_patch 0) 11))"
  "decode_number (snd (ReadState_read (new_ReadState rle_patch 0) 11))
     = Inr (0, snd (ReadState_read (new_ReadState rle_patch 0) 12))"
  by (simp_all add: run_simps mid_run_def rle_patch_def)

lemma bulk_steps:
  "read_header [] bulk_patch = Inr (0, 22, [], mid_run bulk_patch 7 [] 0)"
  "instruction 0 (mid_run bulk_patch 7 [] 0) = Some (Inr (mid_run bulk_patch 18 digits 0))"
  "decode_number (patch (mid_run bulk_patch 18 digits 0))
     = Inr (47, snd (ReadState_read (new_ReadState bulk_patch 0) 19))"
  "decode_number (snd (ReadState_read (new_ReadState bulk_patch 0) 19))
     = Inr (2, snd (ReadState_read (new_ReadState bulk_patch 0) 20))"
  by (simp_all add: run_simps mid_run_def bulk_patch_def digits_def)

lemma rle_states:
  "position (patch (mid_run rle_patch 7 [] 0)) = 7"
  "position (patch (mid_run rle_patch 10 [0x61, 0x62] 0)) = 10"
  "target_rel (mid_run rle_patch 10 [0x61, 0x62] 0) = 0"
  "position (target (mid_run rle_patch 10 [0x61, 0x62] 0)) = 2"
  "buffer (target (mid_run rle_patch 10 [0x61, 0x62] 0)) = [0x61, 0x62]"
  "length rle_patch = 24"
  by (simp_all add: mid_run_def rle_patch_def MAGIC_def new_ReadState_def ReadState_read_def
      ReadState_write_def file_read_def Let_def)

lemma bulk_states:
  "position (patch (mid_run bulk_patch 7 [] 0)) = 7"
  "position (patch (mid_run bulk_patch 18 digits 0)) = 18"
  "target_rel (mid_run bulk_patch 18 digits 0) = 0"
  "position (target (mid_run bulk_patch 18 digits 0)) = 10"
  "buffer (target (mid_run bulk_patch 18 digits 0)) = digits"
  "length bulk_patch = 32"
  "length digits = 10"
  by (simp_all add: mid_run_def bulk_patch_def digits_def MAGIC_def new_ReadState_def
      ReadState_read_def ReadState_write_def file_read_def Let_def)

lemma run_digits:
  "repeat_run digits (Suc 0) 12 =
     digits @ [0x31, 0x32, 0x33, 0x34, 0x35, 0x36, 0x37, 0x38, 0x39, 0x31, 0x32, 0x33]"
  by (simp add: digits_def eval_nat_numeral)

subsection \<open>The run of a TargetCopy\<close>

text \<open>
  Claim C1. Take a state of a run whose next instruction is a TargetCopy (the opcode word
  has kind 3, and length \<open>drop_bit 2 data + 1\<close>) and whose back-reference offset, after
  the seek, lies in the bytes already written (the target cursor's position being the
  length of the file, as it is throughout a run). Then the instruction returns, the loop
  of \<^verbatim>\<open>_patch\<close> goes on from the state it returns, and the target is the old target
  followed by the run: byte \<open>i\<close> of the new part is the byte at the read offset plus
  \<open>i\<close> of the result itself, so a read range that reaches into the bytes being produced
  repeats them. This holds on the bulk path, taken when the write position is more than 8
  past the read offset, and on the byte-by-byte path, taken otherwise; and each of the two
  loops alone produces the same run. When the state is the one reached after \<open>k\<close> turns
  of the loop in a run of \<^verbatim>\<open>patch\<close> that returns, the target file that the run leaves
  starts with the old target followed by the run.
\<close>

theorem target_copy_run:
  assumes op: "decode_number (patch s) = Inr (data, p1)"
    and kind: "data AND 3 = 3"
    and dec: "decode_number p1 = Inr (d, p)"
    and seek: "seek_cur (target_rel s) (signed_offset d) = Inr off"
    and written: "position (target s) = length (buffer (target s))"
    and inside: "off < length (buffer (target s))"
  shows "(\<exists>s'. instruction 0 s = Some (Inr s')
            \<and> buffer (target s')
                = repeat_run (buffer (target s)) off (nat (drop_bit 2 data + 1))
            \<and> position (target s') = length (buffer (target s'))
            \<and> target_rel s' = off + nat (drop_bit 2 data + 1) \<and> patch s' = p
            \<and> (int (position (patch s)) < patch_end \<longrightarrow>
                 instruction_loop 0 patch_end s = instruction_loop 0 patch_end s'))
     \<and> (8 < int (length (buffer (target s))) - int off \<longrightarrow>
          instruction 0 s = map_option Inr
            (buffered_copy TargetRel (drop_bit 2 data + 1)
               (min (int (length (buffer (target s))) - int off) BUFFER_SIZE)
               (s\<lparr>patch := p, target_rel := off\<rparr>))
          \<and> (\<exists>s'. buffered_copy TargetRel (drop_bit 2 data + 1)
                    (min (int (length (buffer (target s))) - int off) BUFFER_SIZE)
                    (s\<lparr>patch := p, target_rel := off\<rparr>) = Some s'
                \<and> buffer (target s')
                    = repeat_run (buffer (target s)) off (nat (drop_bit 2 data + 1))))
     \<and> (\<not> 8 < int (length (buffer (target s))) - int off \<longrightarrow>
          instruction 0 s =
            Some (Inr (copy_bytewise (nat (drop_bit 2 data + 1))
                         (s\<lparr>patch := p, target_rel := off\<rparr>))))
     \<and> buffer (target (copy_bytewise (nat (drop_bit 2 data + 1))
                           (s\<lparr>patch := p, target_rel := off\<rparr>)))
          = repeat_run (buffer (target s)) off (nat (drop_bit 2 data + 1))
     \<and> length (repeat_run (buffer (target s)) off (nat (drop_bit 2 data + 1)))
          = length (buffer (target s)) + nat (drop_bit 2 data + 1)
     \<and> take (length (buffer (target s)))
            (repeat_run (buffer (target s)) off (nat (drop_bit 2 data + 1)))
          = buffer (target s)
     \<and> (\<forall>i < nat (drop_bit 2 data + 1).
           repeat_run (buffer (target s)) off (nat (drop_bit 2 data + 1))
             ! (length (buffer (target s)) + i)
           = repeat_run (buffer (target s)) off (nat (drop_bit 2 data + 1)) ! (off + i))
     \<and> (read_header source_file patch_file = Inr (src_size, tgt_size, meta, s0)
          \<and> patch_end = (case patch_size of None \<Rightarrow> int (length patch_file) | Some n \<Rightarrow> n) - 12
          \<and> loop_turns k 0 patch_end s0 = Some s
          \<and> int (position (patch s)) < patch_end
          \<and> patch_open source_file patch_file patch_size skip_checksum
              = Some (Inr (s_end, result))
         \<longrightarrow> (\<exists>rest. buffer (target s_end)
                = repeat_run (buffer (target s)) off (nat (drop_bit 2 data + 1)) @ rest))"
proof -
  let ?len = "drop_bit 2 data + 1"
  let ?s1 = "s\<lparr>patch := p1\<rparr>"
  have sel: "instruction 0 s = target_copy 0 ?len ?s1"
    using op kind by (simp add: instruction_def Let_def)
  have dec1: "decode_number (patch ?s1) = Inr (d, p)" using dec by simp
  have seek1: "seek_cur (target_rel ?s1) (signed_offset d) = Inr off" using seek by simp
  have written1: "position (target ?s1) = length (buffer (target ?s1))" using written by simp
  have inside1: "off < length (buffer (target ?s1))" using inside by simp
  note t = target_copy_branch [OF dec1 seek1 written1 inside1, of ?len, folded sel]
  from t obtain s' where run: "instruction 0 s = Some (Inr s')"
    and res: "buffer (target s') = repeat_run (buffer (target s)) off (nat ?len)"
      "position (target s') = length (buffer (target s'))"
      "target_rel s' = off + nat ?len" "patch s' = p"
    by auto
  have loop: "int (position (patch s)) < patch_end \<longrightarrow>
      instruction_loop 0 patch_end s = instruction_loop 0 patch_end s'"
    using run by (subst instruction_loop.simps) simp
  from run res loop have first: "\<exists>s'. instruction 0 s = Some (Inr s')
            \<and> buffer (target s') = repeat_run (buffer (target s)) off (nat ?len)
            \<and> position (target s') = length (buffer (target s'))
            \<and> target_rel s' = off + nat ?len \<and> patch s' = p
            \<and> (int (position (patch s)) < patch_end \<longrightarrow>
                 instruction_loop 0 patch_end s = instruction_loop 0 patch_end s')"
    by blast
  from t have rest: "(8 < int (length (buffer (target s))) - int off \<longrightarrow>
          instruction 0 s = map_option Inr
            (buffered_copy TargetRel ?len
               (min (int (length (buffer (target s))) - int off) BUFFER_SIZE)
               (s\<lparr>patch := p, target_rel := off\<rparr>))
          \<and> (\<exists>s'. buffered_copy TargetRel ?len
                    (min (int (length (buffer (target s))) - int off) BUFFER_SIZE)
                    (s\<lparr>patch := p, target_rel := off\<rparr>) = Some s'
                \<and> buffer (target s') = repeat_run (buffer (target s)) off (nat ?len)))
     \<and> (\<not> 8 < int (length (buffer (target s))) - int off \<longrightarrow>
          instruction 0 s =
            Some (Inr (copy_bytewise (nat ?len) (s\<lparr>patch := p, target_rel := off\<rparr>))))
     \<and> buffer (target (copy_bytewise (nat ?len) (s\<lparr>patch := p, target_rel := off\<rparr>)))
          = repeat_run (buffer (target s)) off (nat ?len)
     \<and> length (repeat_run (buffer (target s)) off (nat ?len))
          = length (buffer (target s)) + nat ?len
     \<and> take (length (buffer (target s))) (repeat_run (buffer (target s)) off (nat ?len))
          = buffer (target s)
     \<and> (\<forall>i < nat ?len.
           repeat_run (buffer (target s)) off (nat ?len) ! (length (buffer (target s)) + i)
           = repeat_run (buffer (target s)) off (nat ?len) ! (off + i))"
    by simp
  have whole: "read_header source_file patch_file = Inr (src_size, tgt_size, meta, s0)
          \<and> patch_end = (case patch_size of None \<Rightarrow> int (length patch_file) | Some n \<Rightarrow> n) - 12
          \<and> loop_turns k 0 patch_end s0 = Some s
          \<and> int (position (patch s)) < patch_end
          \<and> patch_open source_file patch_file patch_size skip_checksum
              = Some (Inr (s_end, result))
         \<longrightarrow> (\<exists>rest. buffer (target s_end) = repeat_run (buffer (target s)) off (nat ?len) @ rest)"
  proof (intro impI, elim conjE)
    assume hdr: "read_header source_file patch_file = Inr (src_size, tgt_size, meta, s0)"
      and size: "patch_end
        = (case patch_size of None \<Rightarrow> int (length patch_file) | Some n \<Rightarrow> n) - 12"
      and turns: "loop_turns k 0 patch_end s0 = Some s"
      and more: "int (position (patch s)) < patch_end"
      and fin: "patch_open source_file patch_file patch_size skip_checksum
        = Some (Inr (s_end, result))"
    from loop_turns_loop [OF turns] loop more
    have "instruction_loop 0 patch_end s0 = instruction_loop 0 patch_end s'" by simp
    from patch_open_grows [OF hdr size this fin] res(1) show
      "\<exists>rest. buffer (target s_end) = repeat_run (buffer (target s)) off (nat ?len) @ rest"
      by simp
  qed
  from first rest whole show ?thesis by blast
qed

theorem target_copy_run_witness:
  "read_header [] rle_patch = Inr (0, 7, [], mid_run rle_patch 7 [] 0)
   \<and> loop_turns 1 0 12 (mid_run rle_patch 7 [] 0) = Some (mid_run rle_patch 10 [0x61, 0x62] 0)
   \<and> (\<exists>s'. instruction 0 (mid_run rle_patch 10 [0x61, 0x62] 0) = Some (Inr s')
         \<and> instruction 0 (mid_run rle_patch 10 [0x61, 0x62] 0)
             = Some (Inr (copy_bytewise 5 ((mid_run rle_patch 10 [0x61, 0x62] 0)
                 \<lparr>patch := snd (ReadState_read (new_ReadState rle_patch 0) 12),
                  target_rel := 0\<rparr>)))
         \<and> buffer (target s') = [0x61, 0x62, 0x61, 0x62, 0x61, 0x62, 0x61]
         \<and> instruction_loop 0 12 (mid_run rle_patch 10 [0x61, 0x62] 0)
             = instruction_loop 0 12 s')
   \<and> (\<exists>s_end result rest. patch_open [] rle_patch None False = Some (Inr (s_end, result))
         \<and> buffer (target s_end) = [0x61, 0x62, 0x61, 0x62, 0x61, 0x62, 0x61] @ rest
         \<and> length (buffer (target s_end)) = 7)
   \<and> read_header [] bulk_patch = Inr (0, 22, [], mid_run bulk_patch 7 [] 0)
   \<and> loop_turns 1 0 20 (mid_run bulk_patch 7 [] 0) = Some (mid_run bulk_patch 18 digits 0)
   \<and> (\<exists>s'. instruction 0 (mid_run bulk_patch 18 digits 0) = Some (Inr s')
         \<and> buffered_copy TargetRel 12 9 ((mid_run bulk_patch 18 digits 0)
               \<lparr>patch := snd (ReadState_read (new_ReadState bulk_patch 0) 20),
                target_rel := 1\<rparr>) = Some s'
         \<and> buffer (target s')
             = digits @ [0x31, 0x32, 0x33, 0x34, 0x35, 0x36, 0x37, 0x38, 0x39, 0x31, 0x32, 0x33]
         \<and> instruction_loop 0 20 (mid_run bulk_patch 18 digits 0)
             = instruction_loop 0 20 s')
   \<and> (\<exists>s_end result rest. patch_open [] bulk_patch None False = Some (Inr (s_end, result))
         \<and> buffer (target s_end)
             = (digits @ [0x31, 0x32, 0x33, 0x34, 0x35, 0x36, 0x37, 0x38, 0x39, 0x31, 0x32, 0x33])
               @ rest
         \<and> length (buffer (target s_end)) = 22)"
proof -
  let ?ha = "mid_run rle_patch 7 [] 0"
  let ?a = "mid_run rle_patch 10 [0x61, 0x62] 0"
  let ?hb = "mid_run bulk_patch 7 [] 0"
  let ?b = "mid_run bulk_patch 18 digits 0"
  have turns_a: "loop_turns 1 0 12 ?ha = Some ?a"
    by (simp add: rle_steps(2) rle_states)
  have turns_b: "loop_turns 1 0 20 ?hb = Some ?b"
    by (simp add: bulk_steps(2) bulk_states)
  have kind_a: "(19 :: int) AND 3 = 3" and kind_b: "(47 :: int) AND 3 = 3"
    by simp_all
  have seek_a: "seek_cur (target_rel ?a) (signed_offset 0) = Inr 0"
    by (simp add: rle_states seek_cur_def signed_offset_def)
  have seek_b: "seek_cur (target_rel ?b) (signed_offset 2) = Inr 1"
    by (simp add: bulk_states seek_cur_def signed_offset_def)
  have wr_a: "position (target ?a) = length (buffer (target ?a))"
    and ins_a: "0 < length (buffer (target ?a))"
    by (simp_all add: rle_states)
  have wr_b: "position (target ?b) = length (buffer (target ?b))"
    and ins_b: "1 < length (buffer (target ?b))"
    by (simp_all add: bulk_states)
  from rle_run obtain ea ra where
    fin_a: "patch_open [] rle_patch None False = Some (Inr (ea, ra))"
    and len_a: "length (buffer (target ea)) = 7"
    by simp
  from bulk_run obtain eb rb where
    fin_b: "patch_open [] bulk_patch None False = Some (Inr (eb, rb))"
    and len_b: "length (buffer (target eb)) = 22"
    by (simp add: digits_def)
  note a = target_copy_run [OF rle_steps(3) kind_a rle_steps(4) seek_a wr_a ins_a,
      where patch_end = 12 and source_file = "[]" and patch_file = rle_patch
        and patch_size = None and k = 1 and ?s0.0 = ?ha and src_size = 0 and tgt_size = 7
        and meta = "[]" and skip_checksum = False and s_end = ea and result = ra]
  note b = target_copy_run [OF bulk_steps(3) kind_b bulk_steps(4) seek_b wr_b ins_b,
      where patch_end = 20 and source_file = "[]" and patch_file = bulk_patch
        and patch_size = None and k = 1 and ?s0.0 = ?hb and src_size = 0 and tgt_size = 22
        and meta = "[]" and skip_checksum = False and s_end = eb and result = rb]
  from a turns_a rle_steps(1) fin_a have res_a:
    "\<exists>s'. instruction 0 ?a = Some (Inr s')
         \<and> instruction 0 ?a = Some (Inr (copy_bytewise 5 (?a
                 \<lparr>patch := snd (ReadState_read (new_ReadState rle_patch 0) 12),
                  target_rel := 0\<rparr>)))
         \<and> buffer (target s') = [0x61, 0x62, 0x61, 0x62, 0x61, 0x62, 0x61]
         \<and> instruction_loop 0 12 ?a = instruction_loop 0 12 s'"
    and end_a: "\<exists>rest. buffer (target ea) = [0x61, 0x62, 0x61, 0x62, 0x61, 0x62, 0x61] @ rest"
    by (auto simp: rle_states run_ab)
  from b turns_b bulk_steps(1) fin_b have res_b:
    "\<exists>s'. instruction 0 ?b = Some (Inr s')
         \<and> buffered_copy TargetRel 12 9 (?b
               \<lparr>patch := snd (ReadState_read (new_ReadState bulk_patch 0) 20),
                target_rel := 1\<rparr>) = Some s'
         \<and> buffer (target s')
             = digits @ [0x31, 0x32, 0x33, 0x34, 0x35, 0x36, 0x37, 0x38, 0x39, 0x31, 0x32, 0x33]
         \<and> instruction_loop 0 20 ?b = instruction_loop 0 20 s'"
    and end_b: "\<exists>rest. buffer (target eb)
       = (digits @ [0x31, 0x32, 0x33, 0x34, 0x35, 0x36, 0x37, 0x38, 0x39, 0x31, 0x32, 0x33]) @ rest"
    by (auto simp: bulk_states run_digits BUFFER_SIZE_def)
  from rle_steps(1) turns_a res_a end_a fin_a len_a bulk_steps(1) turns_b res_b end_b fin_b len_b
  show ?thesis by blast
qed

end
